theory Spec2Isabelle
  imports Main
begin

section \<open>The fragment of the IR that the function-removal pass looks at\<close>

text \<open>
  \<^verbatim>\<open>RemoveFunctions.cpp\<close> walks a \<^verbatim>\<open>Module\<close> as a list of functions, a function as a
  list of basic blocks and a basic block as a list of instructions. It tells functions and
  instructions apart by their addresses (\<^verbatim>\<open>Function *\<close>, \<^verbatim>\<open>Instruction *\<close>), asks a
  function whether it is a declaration, asks an instruction whether it is a call and what
  it calls, replaces the uses of a value by \<^verbatim>\<open>undef\<close>, and erases functions and
  instructions. The model keeps exactly that much of the IR.
\<close>

type_synonym fptr = nat
type_synonym iptr = nat

text \<open>
  A value as it stands in an operand position: the placeholder \<^verbatim>\<open>UndefValue\<close>, a function,
  the result of an instruction, or anything else (an argument, a constant, a global).
  Types are left out: \<^verbatim>\<open>UndefValue::get(T)\<close> is \<open>Undef\<close> whatever \<^verbatim>\<open>T\<close> is.
  \<open>OtherVal\<close> stands for values that contain no function and no instruction result: a
  constant expression over a function (a cast of a function, say), which
  \<^verbatim>\<open>replaceAllUsesWith\<close> would rewrite too, is not modelled.
\<close>

datatype val = Undef | FuncVal fptr | InstVal iptr | OtherVal nat

text \<open>
  An instruction is a \<^verbatim>\<open>CallInst\<close> (its address, the called operand, the arguments) or any
  other instruction (its address, its operands).
\<close>

datatype instruction = CallInst iptr val "val list" | OtherInst iptr "val list"

record func =
  fid :: fptr
  fname :: string
  blocks :: "instruction list list"

record module =
  functionList :: "func list"

text \<open>
  \<^verbatim>\<open>Function::isDeclaration()\<close> belongs to the IR library: a function is a declaration
  when it has no body, that is no basic block.
\<close>

definition isDeclaration :: "func \<Rightarrow> bool" where
  "isDeclaration F = (blocks F = [])"

fun instId :: "instruction \<Rightarrow> iptr" where
  "instId (CallInst i callee args) = i"
| "instId (OtherInst i ops) = i"

fun operands :: "instruction \<Rightarrow> val list" where
  "operands (CallInst i callee args) = callee # args"
| "operands (OtherInst i ops) = ops"

text \<open>
  \<^verbatim>\<open>dyn_cast<CallInst>(&I)\<close> followed by \<^verbatim>\<open>Call->getCalledFunction()\<close>: the function called,
  or null when the called operand is not itself a function (an indirect call, or a call
  whose callee has been replaced by \<^verbatim>\<open>undef\<close>).
\<close>

fun getCalledFunction :: "val \<Rightarrow> fptr option" where
  "getCalledFunction (FuncVal f) = Some f"
| "getCalledFunction v = None"

fun isUndefCall :: "instruction \<Rightarrow> bool" where
  "isUndefCall (CallInst i callee args) = (getCalledFunction callee = None)"
| "isUndefCall (OtherInst i ops) = False"

text \<open>The instructions of a module in the order of the three nested \<^verbatim>\<open>for\<close> loops.\<close>

definition allInsts :: "module \<Rightarrow> instruction list" where
  "allInsts M = concat (map (\<lambda>F. concat (blocks F)) (functionList M))"

subsection \<open>The mutations the pass performs\<close>

definition substVal :: "val \<Rightarrow> val \<Rightarrow> val \<Rightarrow> val" where
  "substVal old new v = (if v = old then new else v)"

fun substInst :: "val \<Rightarrow> val \<Rightarrow> instruction \<Rightarrow> instruction" where
  "substInst old new (CallInst i callee args) =
     CallInst i (substVal old new callee) (map (substVal old new) args)"
| "substInst old new (OtherInst i ops) = OtherInst i (map (substVal old new) ops)"

definition substFunc :: "val \<Rightarrow> val \<Rightarrow> func \<Rightarrow> func" where
  "substFunc old new F = F\<lparr>blocks := map (map (substInst old new)) (blocks F)\<rparr>"

text \<open>\<^verbatim>\<open>V.replaceAllUsesWith(New)\<close>: every operand that is \<open>V\<close> becomes \<open>New\<close>.\<close>

definition replaceAllUsesWith :: "val \<Rightarrow> val \<Rightarrow> module \<Rightarrow> module" where
  "replaceAllUsesWith old new M = M\<lparr>functionList := map (substFunc old new) (functionList M)\<rparr>"

text \<open>\<^verbatim>\<open>F->eraseFromParent()\<close>: the function leaves the module's function list.\<close>

definition eraseFunction :: "fptr \<Rightarrow> module \<Rightarrow> module" where
  "eraseFunction f M = M\<lparr>functionList := filter (\<lambda>F. fid F \<noteq> f) (functionList M)\<rparr>"

definition eraseInstFunc :: "iptr \<Rightarrow> func \<Rightarrow> func" where
  "eraseInstFunc i F = F\<lparr>blocks := map (filter (\<lambda>I. instId I \<noteq> i)) (blocks F)\<rparr>"

text \<open>\<^verbatim>\<open>I->eraseFromParent()\<close>: the instruction leaves its basic block.\<close>

definition eraseInstruction :: "iptr \<Rightarrow> module \<Rightarrow> module" where
  "eraseInstruction i M = M\<lparr>functionList := map (eraseInstFunc i) (functionList M)\<rparr>"

subsection \<open>Chunks\<close>

text \<open>
  Modelled from the spec: the declaration of \<^verbatim>\<open>Chunk\<close> (in \<^verbatim>\<open>Delta.h\<close>) is not among the
  sources. The spec gives a chunk as \<open>{begin, end}\<close>, an inclusive range of 1-based target
  indices; the pass compares both fields with its \<^verbatim>\<open>int\<close> counter. The fields are named
  \<open>chunk_begin\<close> and \<open>chunk_end\<close> because \<open>begin\<close> and \<open>end\<close> are reserved words here.
\<close>

record chunk =
  chunk_begin :: int
  chunk_end :: int

text \<open>An index lies inside some chunk of the list.\<close>

definition covered :: "chunk list \<Rightarrow> int \<Rightarrow> bool" where
  "covered cs n = list_ex (\<lambda>c. chunk_begin c \<le> n \<and> n \<le> chunk_end c) cs"

text \<open>
  An ascending, non-overlapping sequence of non-empty ranges, none starting below \<open>lo\<close>.
\<close>

fun ascending :: "int \<Rightarrow> chunk list \<Rightarrow> bool" where
  "ascending lo [] = True"
| "ascending lo (c # cs) =
     (lo \<le> chunk_begin c \<and> chunk_begin c \<le> chunk_end c \<and> ascending (chunk_end c + 1) cs)"

text \<open>A chunk set to keep over the indices \<open>1..N\<close>, as the data model of the spec has it.\<close>

definition validChunks :: "int \<Rightarrow> chunk list \<Rightarrow> bool" where
  "validChunks N cs = (ascending 1 cs \<and> list_all (\<lambda>c. chunk_end c \<le> N) cs)"

section \<open>The pass: \<^verbatim>\<open>RemoveFunctions\<close>\<close>

text \<open>
  What the C++ leaves undefined is an error value of the model: reading a vector past its
  end, and dereferencing a module pointer that points to no module.
\<close>

datatype error = ChunkIndexOutOfBounds | InvalidModulePointer

text \<open>
  The mutations are logged in the order in which they happen, so that statements about
  their order can be made.
\<close>

datatype event =
  ReplaceAllUsesWithUndef val
| EraseFunction fptr
| EraseInstruction iptr

datatype out_item = OutStr string | OutInt int

text \<open>
  The state of the program: the modules that exist, by address (a \<^verbatim>\<open>Module *\<close> is an
  index into \<open>heap\<close>), the log of mutations, and what has been written to \<^verbatim>\<open>outs()\<close>.
\<close>

record state =
  heap :: "module list"
  trace :: "event list"
  outs :: "out_item list"

text \<open>
  \<^verbatim>\<open>CloneModule(*Program)\<close> belongs to the IR library: it returns a new module, a deep copy
  of its argument. The copy lives at a fresh address.
\<close>

definition CloneModule :: "nat \<Rightarrow> state \<Rightarrow> nat \<times> state" where
  "CloneModule Program st = (length (heap st), st\<lparr>heap := heap st @ [heap st ! Program]\<rparr>)"

text \<open>
  The first loop of \<^verbatim>\<open>extractChunksFromModule\<close>. \<open>I\<close> indexes \<^verbatim>\<open>ChunksToKeep\<close>,
  \<open>FunctionCount\<close> is the 1-based index of the defined function at hand. The C++ reads
  \<^verbatim>\<open>ChunksToKeep[I]\<close> without comparing \<open>I\<close> with the size of the vector.
\<close>

fun keepLoop :: "chunk list \<Rightarrow> func list \<Rightarrow> nat \<Rightarrow> int \<Rightarrow> fptr set \<Rightarrow> error + fptr set" where
  "keepLoop ChunksToKeep [] I FunctionCount FuncsToKeep = Inr FuncsToKeep"
| "keepLoop ChunksToKeep (F # Fs) I FunctionCount FuncsToKeep =
     (if \<not> isDeclaration F then
        (if I < length ChunksToKeep then
           keepLoop ChunksToKeep Fs
             (if FunctionCount \<ge> chunk_end (ChunksToKeep ! I) then I + 1 else I)
             (FunctionCount + 1)
             (if FunctionCount \<ge> chunk_begin (ChunksToKeep ! I) \<and>
                 FunctionCount \<le> chunk_end (ChunksToKeep ! I)
              then insert (fid F) FuncsToKeep else FuncsToKeep)
         else Inl ChunkIndexOutOfBounds)
      else keepLoop ChunksToKeep Fs I FunctionCount FuncsToKeep)"

text \<open>
  The loops that mutate the clone run over the positions of the list they walk and read
  the element at each position from the module as it is at that moment.
\<close>

type_synonym mstate = "module \<times> event list"

definition rauwUndef :: "val \<Rightarrow> mstate \<Rightarrow> mstate" where
  "rauwUndef v = (\<lambda>(M, t). (replaceAllUsesWith v Undef M, t @ [ReplaceAllUsesWithUndef v]))"

definition eraseFunc :: "fptr \<Rightarrow> mstate \<Rightarrow> mstate" where
  "eraseFunc f = (\<lambda>(M, t). (eraseFunction f M, t @ [EraseFunction f]))"

definition eraseInst :: "iptr \<Rightarrow> mstate \<Rightarrow> mstate" where
  "eraseInst i = (\<lambda>(M, t). (eraseInstruction i M, t @ [EraseInstruction i]))"

text \<open>
  The body of the second loop: an out-of-chunk definition has its uses replaced by
  \<^verbatim>\<open>undef\<close> and is pushed on \<^verbatim>\<open>FuncsToRemove\<close>.
\<close>

definition markStep :: "fptr set \<Rightarrow> nat \<Rightarrow> mstate \<times> fptr list \<Rightarrow> mstate \<times> fptr list" where
  "markStep FuncsToKeep k = (\<lambda>(s, FuncsToRemove).
     let F = functionList (fst s) ! k in
     if \<not> isDeclaration F \<and> fid F \<notin> FuncsToKeep
     then (rauwUndef (FuncVal (fid F)) s, FuncsToRemove @ [fid F])
     else (s, FuncsToRemove))"

text \<open>
  The body of the innermost loop of the sweep: a call with no called function has the uses
  of its result replaced by \<^verbatim>\<open>undef\<close> and is pushed on \<^verbatim>\<open>InstToRemove\<close>.
\<close>

definition sweepStep :: "nat \<Rightarrow> mstate \<times> iptr list \<Rightarrow> mstate \<times> iptr list" where
  "sweepStep k = (\<lambda>(s, InstToRemove).
     let I = allInsts (fst s) ! k in
     if isUndefCall I
     then (rauwUndef (InstVal (instId I)) s, InstToRemove @ [instId I])
     else (s, InstToRemove))"

text \<open>Everything \<^verbatim>\<open>extractChunksFromModule\<close> does to the clone once it knows what to keep.\<close>

definition stripClone :: "fptr set \<Rightarrow> mstate \<Rightarrow> mstate" where
  "stripClone FuncsToKeep s0 =
     (let (s1, FuncsToRemove) =
            fold (markStep FuncsToKeep) [0..<length (functionList (fst s0))] (s0, []);
          s2 = fold eraseFunc FuncsToRemove s1;
          (s3, InstToRemove) = fold sweepStep [0..<length (allInsts (fst s2))] (s2, []);
          s4 = fold eraseInst InstToRemove s3
      in s4)"

definition extractChunksFromModule :: "chunk list \<Rightarrow> nat \<Rightarrow> state \<Rightarrow> error + (nat \<times> state)" where
  "extractChunksFromModule ChunksToKeep Program st =
     (if Program < length (heap st) then
        (let (Clone, st1) = CloneModule Program st in
         case keepLoop ChunksToKeep (functionList (heap st1 ! Clone)) 0 1 {} of
           Inl e \<Rightarrow> Inl e
         | Inr FuncsToKeep \<Rightarrow>
             (let (M, t) = stripClone FuncsToKeep (heap st1 ! Clone, trace st1)
              in Inr (Clone, st1\<lparr>heap := (heap st1)[Clone := M], trace := t\<rparr>)))
      else Inl InvalidModulePointer)"

text \<open>
  \<^verbatim>\<open>getTargetCount\<close>: the loop reads the function at each position from the module as it
  is at that moment, counts the definitions and prints the index and name of each.
\<close>

definition print :: "out_item list \<Rightarrow> state \<Rightarrow> state" where
  "print items st = st\<lparr>outs := outs st @ items\<rparr>"

definition countStep :: "nat \<Rightarrow> nat \<Rightarrow> int \<times> state \<Rightarrow> int \<times> state" where
  "countStep Program k = (\<lambda>(FunctionCount, st).
     let F = functionList (heap st ! Program) ! k in
     if \<not> isDeclaration F
     then (FunctionCount + 1,
           print [OutStr [CHR 0x09], OutInt (FunctionCount + 1), OutStr '': '',
                  OutStr (fname F), OutStr ''\<newline>''] st)
     else (FunctionCount, st))"

definition getTargetCount :: "nat \<Rightarrow> state \<Rightarrow> error + (int \<times> state)" where
  "getTargetCount Program st =
     (if Program < length (heap st) then
        (let st1 = print [OutStr ''----------------------------\<newline>''] st;
             st2 = print [OutStr ''Chunk Index Reference:\<newline>''] st1;
             (FunctionCount, st3) =
               fold (countStep Program) [0..<length (functionList (heap st2 ! Program))] (0, st2);
             st4 = print [OutStr ''----------------------------\<newline>''] st3
         in Inr (FunctionCount, st4))
      else Inl InvalidModulePointer)"

text \<open>The number of target units of a module: its functions that are not declarations.\<close>

definition definedFunctions :: "module \<Rightarrow> func list" where
  "definedFunctions M = filter (\<lambda>F. \<not> isDeclaration F) (functionList M)"

section \<open>The driver: \<^verbatim>\<open>llvm-reduce.cpp\<close>\<close>

text \<open>The command line options that \<^verbatim>\<open>main\<close> reads.\<close>

record options =
  InputFilename :: string
  TestFilename :: string
  TestArguments :: "string list"
  OutputFilename :: string
  ReplaceInput :: bool

text \<open>
  \<^verbatim>\<open>TestRunner\<close> is declared in \<^verbatim>\<open>TestRunner.h\<close>, which is not among the sources. The driver
  constructs it from the test name, the test arguments, the input file name and the
  temporary directory, hands it the parsed program (\<^verbatim>\<open>setProgram\<close>) and later asks it for
  the path of the reduced file (\<^verbatim>\<open>getReducedFilepath\<close>). The record holds these five
  values; the program is \<open>None\<close> when the \<^verbatim>\<open>unique_ptr\<close> is null. The field for the program
  is named \<open>TesterProgram\<close> to keep \<open>Program\<close> free for the argument of the pass.
\<close>

record TestRunner =
  TestName :: string
  TestArgs :: "string list"
  ReducedFilepath :: string
  TmpDirectory :: string
  TesterProgram :: "module option"

text \<open>
  What the driver calls and the sources do not hold is a parameter of the model: the IR
  parser and verifier, the file system, the path functions of the Support library, and
  \<^verbatim>\<open>runDeltaPasses\<close> (\<^verbatim>\<open>DeltaManager.h\<close>). \<open>verifyModule\<close> is true when the module is broken, as
  in the IR library. \<open>current_path\<close> is \<open>Inl\<close> the message of the error code or \<open>Inr\<close> the
  directory; \<open>create_directory\<close> is \<open>Some\<close> the message of the error code or \<open>None\<close>.
\<close>

record environment =
  parseIRFile :: "string \<Rightarrow> module option"
  verifyModule :: "module \<Rightarrow> bool"
  current_path :: "string + string"
  create_directory :: "string \<Rightarrow> string option"
  path_append :: "string \<Rightarrow> string \<Rightarrow> string"
  path_filename :: "string \<Rightarrow> string"
  runDeltaPasses :: "TestRunner \<Rightarrow> TestRunner"

text \<open>What the driver does that can be observed, in order.\<close>

datatype driver_event =
  PrintErrs string
| PrintOuts string
| CreateDirectory string
| RunDeltaPasses TestRunner
| CopyFile string string

definition parseInputFile :: "environment \<Rightarrow> string \<Rightarrow> module option \<times> driver_event list" where
  "parseInputFile env Filename =
     (case parseIRFile env Filename of
        None \<Rightarrow> (None, [PrintErrs ''llvm-reduce''])
      | Some Result \<Rightarrow>
          if verifyModule env Result
          then (None, [PrintErrs (''Error: '' @ Filename @ '' - input module is broken!\<newline>'')])
          else (Some Result, []))"

text \<open>\<open>Inl\<close> is \<^verbatim>\<open>exit(1)\<close>.\<close>

definition initializeTmpDirectory ::
  "environment \<Rightarrow> (int \<times> driver_event list) + (string \<times> driver_event list)" where
  "initializeTmpDirectory env =
     (case current_path env of
        Inl message \<Rightarrow>
          Inl (1, [PrintErrs (''Error getting current directory: '' @ message @ ''!\<newline>'')])
      | Inr CWD \<Rightarrow>
          (let TmpDir = path_append env CWD ''tmp'' in
           Inr (TmpDir,
                CreateDirectory TmpDir #
                (case create_directory env TmpDir of
                   Some message \<Rightarrow>
                     [PrintErrs (''Error creating tmp directory: '' @ message @ ''!\<newline>'')]
                 | None \<Rightarrow> []))))"

text \<open>
  \<^verbatim>\<open>main\<close> returns the exit code and what it did. The local variable \<^verbatim>\<open>TmpDirectory\<close> is
  \<open>TmpDir\<close> here, the name being taken by the field of \<open>TestRunner\<close>.
\<close>

definition main :: "environment \<Rightarrow> options \<Rightarrow> int \<times> driver_event list" where
  "main env opts =
     (let (OriginalProgram, parsing) = parseInputFile env (InputFilename opts) in
      case initializeTmpDirectory env of
        Inl (code, tmp) \<Rightarrow> (code, parsing @ tmp)
      | Inr (TmpDir, tmp) \<Rightarrow>
          (let Tester = \<lparr>TestName = TestFilename opts, TestArgs = TestArguments opts,
                         ReducedFilepath = InputFilename opts, TmpDirectory = TmpDir,
                         TesterProgram = None\<rparr>;
               Tester1 = Tester\<lparr>TesterProgram := OriginalProgram\<rparr>;
               Tester2 = runDeltaPasses env Tester1;
               ReducedFilename = path_filename env (ReducedFilepath Tester2)
           in if ReducedFilename = InputFilename opts
              then (0, parsing @ tmp @
                       [RunDeltaPasses Tester1,
                        PrintOuts ''\<newline>Couldnt reduce input :/\<newline>''])
              else (let Output = (if ReplaceInput opts then InputFilename opts
                                  else if OutputFilename opts = [] then ''reduced.ll''
                                  else OutputFilename opts @ ''.ll'')
                    in (0, parsing @ tmp @
                           [RunDeltaPasses Tester1,
                            CopyFile (ReducedFilepath Tester2) Output,
                            PrintOuts (''\<newline>Done reducing! Reduced IR to file: '' @
                                       Output @ ''\<newline>'')]))))"

section \<open>The chunk model and the bisection engine\<close>

text \<open>
  Modelled from the spec: the reduction pass as a capability with two operations
  (section 4.2), \<open>countTargets\<close> and \<open>reduce\<close>. The interface of the passes
  (\<^verbatim>\<open>Delta.h\<close>) is not among the sources.
\<close>

record 'a pass =
  countTargets :: "'a \<Rightarrow> nat"
  reduce :: "'a \<Rightarrow> chunk list \<Rightarrow> 'a"

text \<open>
  Modelled from the spec: \<open>computeChunks(N, K)\<close> of section 4.1, which splits \<open>1..N\<close> into
  \<open>K\<close> contiguous ranges as evenly as possible. The code that computes the chunks
  (\<^verbatim>\<open>Delta.cpp\<close>) is not among the sources. Chunk \<open>j\<close> (from 0) runs from
  \<open>j * N div K + 1\<close> to \<open>(j + 1) * N div K\<close>.
\<close>

definition computeChunks :: "nat \<Rightarrow> nat \<Rightarrow> chunk list" where
  "computeChunks N K =
     map (\<lambda>j. \<lparr>chunk_begin = int (j * N div K) + 1, chunk_end = int ((j + 1) * N div K)\<rparr>)
       [0..<K]"

text \<open>
  Modelled from the spec: step 3b of section 4.4, one sweep over the chunks, in order. The
  chunks before the one at hand are \<open>pre\<close>, those after it \<open>post\<close>; the candidate keeps
  every chunk but the one at hand. The sweep stops at the first interesting candidate.
  \<open>calls\<close> counts the calls of the oracle.
\<close>

fun trySweep ::
  "'a pass \<Rightarrow> ('a \<Rightarrow> bool) \<Rightarrow> 'a \<Rightarrow> chunk list \<Rightarrow> chunk list \<Rightarrow> nat \<Rightarrow> 'a option \<times> nat" where
  "trySweep P test best pre [] calls = (None, calls)"
| "trySweep P test best pre (c # post) calls =
     (let kept = pre @ post; candidate = reduce P best kept in
      if test candidate then (Some candidate, calls + 1)
      else trySweep P test best (pre @ [c]) post (calls + 1))"

text \<open>
  Modelled from the spec: step 3 of section 4.4. After a success the search restarts at
  granularity 2 with the target count of the new best artifact; after a sweep with no
  success the granularity doubles; the search ends when \<open>K > N\<close>. The search (\<^verbatim>\<open>Delta.cpp\<close>)
  is not among the sources. A search that does not end has the value \<open>None\<close>.
\<close>

partial_function (option) bisect ::
  "'a pass \<Rightarrow> ('a \<Rightarrow> bool) \<Rightarrow> 'a \<Rightarrow> nat \<Rightarrow> nat \<Rightarrow> nat \<Rightarrow> ('a \<times> nat) option" where
  "bisect P test best N K calls =
     (if K \<le> N then
        (case trySweep P test best [] (computeChunks N K) calls of
           (Some candidate, calls') \<Rightarrow>
             bisect P test candidate (countTargets P candidate) 2 calls'
         | (None, calls') \<Rightarrow> bisect P test best N (2 * K) calls')
      else Some (best, calls))"

declare bisect.simps [code]

text \<open>Modelled from the spec: steps 1 and 2 of section 4.4.\<close>

definition runPass :: "'a pass \<Rightarrow> ('a \<Rightarrow> bool) \<Rightarrow> 'a \<Rightarrow> ('a \<times> nat) option" where
  "runPass P test best =
     (let N = countTargets P best in
      if N = 0 then Some (best, 0) else bisect P test best N 2 0)"

section \<open>What the loops compute\<close>

text \<open>
  The definitions of this section are not translations of code. They name what the loops
  above compute, so that the lemmas and theorems below can speak about it; each is
  connected to the loops by a lemma.
\<close>

text \<open>The test of the second loop: a definition that is not in \<^verbatim>\<open>FuncsToKeep\<close>.\<close>

definition outOfChunk :: "fptr set \<Rightarrow> func \<Rightarrow> bool" where
  "outOfChunk keep F = (\<not> isDeclaration F \<and> fid F \<notin> keep)"

text \<open>The contents of \<^verbatim>\<open>FuncsToRemove\<close> after the second loop, in order.\<close>

definition funcsToRemove :: "fptr set \<Rightarrow> module \<Rightarrow> fptr list" where
  "funcsToRemove keep M = map fid (filter (outOfChunk keep) (functionList M))"

text \<open>The contents of \<^verbatim>\<open>InstToRemove\<close> after the sweep over a module, in order.\<close>

definition instToRemove :: "module \<Rightarrow> iptr list" where
  "instToRemove M = map instId (filter isUndefCall (allInsts M))"

text \<open>The clone after the second loop: the uses of the out-of-chunk definitions are patched.\<close>

definition patchedModule :: "fptr set \<Rightarrow> module \<Rightarrow> module" where
  "patchedModule keep M =
     fold (\<lambda>f. replaceAllUsesWith (FuncVal f) Undef) (funcsToRemove keep M) M"

text \<open>The clone after the third loop: the out-of-chunk definitions are erased.\<close>

definition prunedModule :: "fptr set \<Rightarrow> module \<Rightarrow> module" where
  "prunedModule keep M = fold eraseFunction (funcsToRemove keep M) (patchedModule keep M)"

text \<open>The sweep: the fourth and fifth loops applied to a module.\<close>

definition sweptModule :: "module \<Rightarrow> module" where
  "sweptModule M =
     fold eraseInstruction (instToRemove M)
       (fold (\<lambda>i. replaceAllUsesWith (InstVal i) Undef) (instToRemove M) M)"

text \<open>The mutations of a whole run, in the order in which they happen.\<close>

definition stripTrace :: "fptr set \<Rightarrow> module \<Rightarrow> event list" where
  "stripTrace keep M =
     map (\<lambda>f. ReplaceAllUsesWithUndef (FuncVal f)) (funcsToRemove keep M)
     @ map EraseFunction (funcsToRemove keep M)
     @ map (\<lambda>i. ReplaceAllUsesWithUndef (InstVal i)) (instToRemove (prunedModule keep M))
     @ map EraseInstruction (instToRemove (prunedModule keep M))"

text \<open>
  The target units of a function list: its definitions, each with its index in definition
  order, the first index being \<open>n\<close>.
\<close>

fun targetUnits :: "func list \<Rightarrow> int \<Rightarrow> (func \<times> int) list" where
  "targetUnits [] n = []"
| "targetUnits (F # Fs) n =
     (if isDeclaration F then targetUnits Fs n else (F, n) # targetUnits Fs (n + 1))"

text \<open>The addresses of the target units whose index lies inside some chunk of \<open>cs\<close>.\<close>

definition keptIn :: "chunk list \<Rightarrow> (func \<times> int) list \<Rightarrow> fptr set" where
  "keptIn cs us = set (map (\<lambda>u. fid (fst u)) (filter (\<lambda>u. covered cs (snd u)) us))"

text \<open>
  What the run does to the body of a function it keeps: the uses of the removed functions
  \<open>fs\<close> and of the results of the removed calls \<open>is\<close> are replaced, and these calls are
  erased.
\<close>

definition patchFunc :: "fptr list \<Rightarrow> iptr list \<Rightarrow> func \<Rightarrow> func" where
  "patchFunc fs is F =
     fold eraseInstFunc is
       (fold (\<lambda>v. substFunc v Undef) (map InstVal is)
          (fold (\<lambda>v. substFunc v Undef) (map FuncVal fs) F))"

section \<open>Inputs to run the model on\<close>

text \<open>
  A declaration \<open>ext\<close> and three definitions: \<open>f\<close> calls \<open>g\<close>, makes an indirect call and
  uses its result; \<open>g\<close> calls nothing; \<open>h\<close> calls \<open>f\<close> and passes \<open>g\<close> as an argument.
\<close>

definition exampleModule :: module where
  "exampleModule = \<lparr>functionList =
     [\<lparr>fid = 5, fname = ''ext'', blocks = []\<rparr>,
      \<lparr>fid = 6, fname = ''f'',
         blocks = [[CallInst 10 (FuncVal 7) [], CallInst 11 (OtherVal 0) [InstVal 10],
                    OtherInst 12 [InstVal 11]]]\<rparr>,
      \<lparr>fid = 7, fname = ''g'', blocks = [[OtherInst 20 []]]\<rparr>,
      \<lparr>fid = 8, fname = ''h'',
         blocks = [[CallInst 30 (FuncVal 6) [FuncVal 7], OtherInst 31 [InstVal 30]]]\<rparr>]\<rparr>"

definition exampleState :: state where
  "exampleState = \<lparr>heap = [exampleModule], trace = [], outs = []\<rparr>"

text \<open>
  \<^verbatim>\<open>sys::path::filename\<close> belongs to the Support library: the last component of a path.
  It is needed only to run the driver on an input, and stands for the library function on
  paths that do not end in a separator (for a path that does, the library returns \<open>.\<close>).
\<close>

definition filename_component :: "string \<Rightarrow> string" where
  "filename_component p = rev (takeWhile (\<lambda>c. c \<noteq> CHR ''/'') (rev p))"

text \<open>
  An environment in which the delta passes find nothing to remove (they return the test
  runner as they got it), the working directory is \<open>/work\<close>, and the parser is \<open>parse\<close>.
\<close>

definition exampleEnvironment :: "(string \<Rightarrow> module option) \<Rightarrow> environment" where
  "exampleEnvironment parse =
     \<lparr>parseIRFile = parse, verifyModule = (\<lambda>M. False), current_path = Inr ''/work'',
      create_directory = (\<lambda>d. None), path_append = (\<lambda>a b. a @ ''/'' @ b),
      path_filename = filename_component, runDeltaPasses = (\<lambda>T. T)\<rparr>"

definition exampleOptions :: "string \<Rightarrow> options" where
  "exampleOptions input =
     \<lparr>InputFilename = input, TestFilename = ''test.sh'', TestArguments = [],
      OutputFilename = [], ReplaceInput = False\<rparr>"

text \<open>
  A pass over lists of numbered units, which keeps the units whose 1-based position lies
  inside a kept chunk.
\<close>

definition listPass :: "nat list pass" where
  "listPass = \<lparr>countTargets = length,
               reduce = (\<lambda>xs kept. map snd (filter (\<lambda>u. covered kept (int (fst u)))
                                     (enumerate 1 xs)))\<rparr>"

text \<open>
  A pass whose \<open>reduce\<close> removes nothing: the candidate is the artifact, whatever the kept
  chunk set.
\<close>

definition idPass :: "nat list pass" where
  "idPass = \<lparr>countTargets = length, reduce = (\<lambda>xs kept. xs)\<rparr>"

section \<open>Lemmas about the pass\<close>

subsection \<open>Walking a list by its positions\<close>

lemma filter_positions:
  "map (\<lambda>k. f (xs ! k)) (filter (\<lambda>k. P (xs ! k)) [0..<length xs]) = map f (filter P xs)"
proof -
  have "map f (filter P xs) = map f (filter P (map (\<lambda>k. xs ! k) [0..<length xs]))"
    by (simp add: map_nth)
  also have "\<dots> = map (\<lambda>k. f (xs ! k)) (filter (\<lambda>k. P (xs ! k)) [0..<length xs])"
    by (simp add: filter_map comp_def)
  finally show ?thesis by simp
qed

lemma length_filter_positions:
  "length (filter (\<lambda>k. P (xs ! k)) [0..<length xs]) = length (filter P xs)"
  using arg_cong [OF filter_positions [of id xs P], of length] by simp

subsection \<open>Counting the target units\<close>

lemma heap_print [simp]: "heap (print items st) = heap st"
  by (simp add: print_def)

lemma trace_print [simp]: "trace (print items st) = trace st"
  by (simp add: print_def)

lemma countStep_fold:
  "fold (countStep p) ks (n, st) = (n', st') \<Longrightarrow>
     heap st' = heap st \<and> trace st' = trace st \<and>
     n' = n + int (length (filter (\<lambda>k. \<not> isDeclaration (functionList (heap st ! p) ! k)) ks))"
proof (induction ks arbitrary: n st)
  case Nil
  then show ?case by simp
next
  case (Cons k ks)
  obtain n1 st1 where step: "countStep p k (n, st) = (n1, st1)"
    by (cases "countStep p k (n, st)")
  then have h1: "heap st1 = heap st" and t1: "trace st1 = trace st"
    and n1: "n1 = n + (if \<not> isDeclaration (functionList (heap st ! p) ! k) then 1 else 0)"
    by (auto simp: countStep_def Let_def split: if_splits)
  from Cons.prems step have "fold (countStep p) ks (n1, st1) = (n', st')" by simp
  from Cons.IH [OF this] h1 t1 n1 show ?case by simp
qed

lemma getTargetCount_result:
  assumes "Program < length (heap st)"
  shows "\<exists>st'. getTargetCount Program st =
            Inr (int (length (definedFunctions (heap st ! Program))), st') \<and>
          heap st' = heap st \<and> trace st' = trace st"
proof -
  let ?st2 = "print [OutStr ''Chunk Index Reference:\<newline>'']
                (print [OutStr ''----------------------------\<newline>''] st)"
  obtain n st3 where f: "fold (countStep Program)
      [0..<length (functionList (heap ?st2 ! Program))] (0, ?st2) = (n, st3)"
    by (cases "fold (countStep Program)
      [0..<length (functionList (heap ?st2 ! Program))] (0, ?st2)")
  from countStep_fold [OF f]
  have "heap st3 = heap st" "trace st3 = trace st"
    "n = int (length (definedFunctions (heap st ! Program)))"
    using length_filter_positions [of "\<lambda>F. \<not> isDeclaration F" "functionList (heap st ! Program)"]
    by (simp_all add: definedFunctions_def)
  with f assms show ?thesis
    by (simp add: getTargetCount_def Let_def)
qed

subsection \<open>The loops that mutate the clone\<close>

lemma functionList_rauw [simp]:
  "functionList (replaceAllUsesWith old new M) = map (substFunc old new) (functionList M)"
  by (simp add: replaceAllUsesWith_def)

lemma fid_substFunc [simp]: "fid (substFunc old new F) = fid F"
  by (simp add: substFunc_def)

lemma fname_substFunc [simp]: "fname (substFunc old new F) = fname F"
  by (simp add: substFunc_def)

lemma isDeclaration_substFunc [simp]: "isDeclaration (substFunc old new F) = isDeclaration F"
  by (simp add: substFunc_def isDeclaration_def)

lemma outOfChunk_substFunc [simp]: "outOfChunk keep (substFunc old new F) = outOfChunk keep F"
  by (simp add: outOfChunk_def)

lemma allInsts_rauw [simp]:
  "allInsts (replaceAllUsesWith old new M) = map (substInst old new) (allInsts M)"
  by (simp add: allInsts_def replaceAllUsesWith_def substFunc_def map_concat comp_def)

lemma instId_substInst [simp]: "instId (substInst old new I) = instId I"
  by (cases I) simp_all

lemma isUndefCall_substInst_Inst [simp]:
  "isUndefCall (substInst (InstVal i) Undef I) = isUndefCall I"
proof (cases I)
  case (CallInst j callee args)
  then show ?thesis by (cases callee) (simp_all add: substVal_def)
next
  case (OtherInst j ops)
  then show ?thesis by simp
qed

text \<open>
  The second loop and the sweep, one step per position: the positions selected and the
  addresses pushed are those of the module as it was when the loop started.
\<close>

lemma markStep_fold:
  assumes "\<forall>k\<in>set ks. k < length (functionList M)"
  shows "fold (markStep keep) ks ((M, t), rem) =
           ((fold (\<lambda>f. replaceAllUsesWith (FuncVal f) Undef)
               (map (\<lambda>k. fid (functionList M ! k))
                  (filter (\<lambda>k. outOfChunk keep (functionList M ! k)) ks)) M,
             t @ map (\<lambda>f. ReplaceAllUsesWithUndef (FuncVal f))
                  (map (\<lambda>k. fid (functionList M ! k))
                     (filter (\<lambda>k. outOfChunk keep (functionList M ! k)) ks))),
            rem @ map (\<lambda>k. fid (functionList M ! k))
                    (filter (\<lambda>k. outOfChunk keep (functionList M ! k)) ks))"
  using assms
proof (induction ks arbitrary: M t rem)
  case Nil
  then show ?case by simp
next
  case (Cons k ks)
  let ?F = "functionList M ! k"
  show ?case
  proof (cases "outOfChunk keep ?F")
    case False
    then have "markStep keep k ((M, t), rem) = ((M, t), rem)"
      by (simp add: markStep_def outOfChunk_def Let_def)
    with False Cons show ?thesis by simp
  next
    case True
    let ?M' = "replaceAllUsesWith (FuncVal (fid ?F)) Undef M"
    have step: "markStep keep k ((M, t), rem) =
        ((?M', t @ [ReplaceAllUsesWithUndef (FuncVal (fid ?F))]), rem @ [fid ?F])"
      using True by (simp add: markStep_def outOfChunk_def rauwUndef_def Let_def)
    have same: "\<And>j. j \<in> set ks \<Longrightarrow>
        outOfChunk keep (functionList ?M' ! j) = outOfChunk keep (functionList M ! j) \<and>
        fid (functionList ?M' ! j) = fid (functionList M ! j)"
      using Cons.prems by simp
    have f: "filter (\<lambda>k. outOfChunk keep (functionList ?M' ! k)) ks =
             filter (\<lambda>k. outOfChunk keep (functionList M ! k)) ks"
      by (rule filter_cong [OF refl]) (rule same [THEN conjunct1])
    have m: "map (\<lambda>k. fid (functionList ?M' ! k))
               (filter (\<lambda>k. outOfChunk keep (functionList M ! k)) ks) =
             map (\<lambda>k. fid (functionList M ! k))
               (filter (\<lambda>k. outOfChunk keep (functionList M ! k)) ks)"
      by (rule map_cong [OF refl]) (rule same [THEN conjunct2], simp)
    have "\<forall>k\<in>set ks. k < length (functionList ?M')"
      using Cons.prems by simp
    from Cons.IH [OF this, of "t @ [ReplaceAllUsesWithUndef (FuncVal (fid ?F))]" "rem @ [fid ?F]"]
    have ih: "fold (markStep keep) ks
        ((?M', t @ [ReplaceAllUsesWithUndef (FuncVal (fid ?F))]), rem @ [fid ?F]) =
        ((fold (\<lambda>f. replaceAllUsesWith (FuncVal f) Undef)
               (map (\<lambda>k. fid (functionList M ! k))
                  (filter (\<lambda>k. outOfChunk keep (functionList M ! k)) ks)) ?M',
             (t @ [ReplaceAllUsesWithUndef (FuncVal (fid ?F))]) @
                map (\<lambda>f. ReplaceAllUsesWithUndef (FuncVal f))
                  (map (\<lambda>k. fid (functionList M ! k))
                     (filter (\<lambda>k. outOfChunk keep (functionList M ! k)) ks))),
            (rem @ [fid ?F]) @ map (\<lambda>k. fid (functionList M ! k))
                    (filter (\<lambda>k. outOfChunk keep (functionList M ! k)) ks))"
      unfolding f m .
    have "fold (markStep keep) (k # ks) ((M, t), rem) =
          fold (markStep keep) ks (markStep keep k ((M, t), rem))"
      by simp
    also note step
    also note ih
    finally show ?thesis
      using True by simp
  qed
qed

lemma sweepStep_fold:
  assumes "\<forall>k\<in>set ks. k < length (allInsts M)"
  shows "fold sweepStep ks ((M, t), dead) =
           ((fold (\<lambda>i. replaceAllUsesWith (InstVal i) Undef)
               (map (\<lambda>k. instId (allInsts M ! k))
                  (filter (\<lambda>k. isUndefCall (allInsts M ! k)) ks)) M,
             t @ map (\<lambda>i. ReplaceAllUsesWithUndef (InstVal i))
                  (map (\<lambda>k. instId (allInsts M ! k))
                     (filter (\<lambda>k. isUndefCall (allInsts M ! k)) ks))),
            dead @ map (\<lambda>k. instId (allInsts M ! k))
                     (filter (\<lambda>k. isUndefCall (allInsts M ! k)) ks))"
  using assms
proof (induction ks arbitrary: M t dead)
  case Nil
  then show ?case by simp
next
  case (Cons k ks)
  let ?I = "allInsts M ! k"
  show ?case
  proof (cases "isUndefCall ?I")
    case False
    then have "sweepStep k ((M, t), dead) = ((M, t), dead)"
      by (simp add: sweepStep_def Let_def)
    with False Cons show ?thesis by simp
  next
    case True
    let ?M' = "replaceAllUsesWith (InstVal (instId ?I)) Undef M"
    have step: "sweepStep k ((M, t), dead) =
        ((?M', t @ [ReplaceAllUsesWithUndef (InstVal (instId ?I))]), dead @ [instId ?I])"
      using True by (simp add: sweepStep_def rauwUndef_def Let_def)
    have same: "\<And>j. j \<in> set ks \<Longrightarrow>
        isUndefCall (allInsts ?M' ! j) = isUndefCall (allInsts M ! j) \<and>
        instId (allInsts ?M' ! j) = instId (allInsts M ! j)"
      using Cons.prems by simp
    have f: "filter (\<lambda>k. isUndefCall (allInsts ?M' ! k)) ks =
             filter (\<lambda>k. isUndefCall (allInsts M ! k)) ks"
      by (rule filter_cong [OF refl]) (rule same [THEN conjunct1])
    have m: "map (\<lambda>k. instId (allInsts ?M' ! k))
               (filter (\<lambda>k. isUndefCall (allInsts M ! k)) ks) =
             map (\<lambda>k. instId (allInsts M ! k))
               (filter (\<lambda>k. isUndefCall (allInsts M ! k)) ks)"
      by (rule map_cong [OF refl]) (rule same [THEN conjunct2], simp)
    have "\<forall>k\<in>set ks. k < length (allInsts ?M')"
      using Cons.prems by simp
    from Cons.IH [OF this, of "t @ [ReplaceAllUsesWithUndef (InstVal (instId ?I))]" "dead @ [instId ?I]"]
    have ih: "fold sweepStep ks
        ((?M', t @ [ReplaceAllUsesWithUndef (InstVal (instId ?I))]), dead @ [instId ?I]) =
        ((fold (\<lambda>i. replaceAllUsesWith (InstVal i) Undef)
               (map (\<lambda>k. instId (allInsts M ! k))
                  (filter (\<lambda>k. isUndefCall (allInsts M ! k)) ks)) ?M',
             (t @ [ReplaceAllUsesWithUndef (InstVal (instId ?I))]) @
                map (\<lambda>i. ReplaceAllUsesWithUndef (InstVal i))
                  (map (\<lambda>k. instId (allInsts M ! k))
                     (filter (\<lambda>k. isUndefCall (allInsts M ! k)) ks))),
            (dead @ [instId ?I]) @ map (\<lambda>k. instId (allInsts M ! k))
                     (filter (\<lambda>k. isUndefCall (allInsts M ! k)) ks))"
      unfolding f m .
    have "fold sweepStep (k # ks) ((M, t), dead) = fold sweepStep ks (sweepStep k ((M, t), dead))"
      by simp
    also note step
    also note ih
    finally show ?thesis
      using True by simp
  qed
qed

lemma fold_eraseFunc:
  "fold eraseFunc fs (M, t) = (fold eraseFunction fs M, t @ map EraseFunction fs)"
  by (induction fs arbitrary: M t) (simp_all add: eraseFunc_def)

lemma fold_eraseInst:
  "fold eraseInst is (M, t) = (fold eraseInstruction is M, t @ map EraseInstruction is)"
  by (induction "is" arbitrary: M t) (simp_all add: eraseInst_def)

lemma stripClone_eq:
  "stripClone keep (M, t) =
     (sweptModule (prunedModule keep M),
      t @ map (\<lambda>f. ReplaceAllUsesWithUndef (FuncVal f)) (funcsToRemove keep M)
        @ map EraseFunction (funcsToRemove keep M)
        @ map (\<lambda>i. ReplaceAllUsesWithUndef (InstVal i)) (instToRemove (prunedModule keep M))
        @ map EraseInstruction (instToRemove (prunedModule keep M)))"
proof -
  have rem: "map (\<lambda>k. fid (functionList M ! k))
               (filter (\<lambda>k. outOfChunk keep (functionList M ! k)) [0..<length (functionList M)]) =
             funcsToRemove keep M"
    unfolding funcsToRemove_def by (rule filter_positions)
  have dead: "\<And>N. map (\<lambda>k. instId (allInsts N ! k))
               (filter (\<lambda>k. isUndefCall (allInsts N ! k)) [0..<length (allInsts N)]) =
             instToRemove N"
    unfolding instToRemove_def by (rule filter_positions)
  have 1: "fold (markStep keep) [0..<length (functionList M)] ((M, t), []) =
        ((patchedModule keep M,
          t @ map (\<lambda>f. ReplaceAllUsesWithUndef (FuncVal f)) (funcsToRemove keep M)),
         funcsToRemove keep M)"
    using markStep_fold [of "[0..<length (functionList M)]" M keep t "[]"]
    by (simp add: rem patchedModule_def)
  have 2: "\<And>N u. fold sweepStep [0..<length (allInsts N)] ((N, u), []) =
        ((fold (\<lambda>i. replaceAllUsesWith (InstVal i) Undef) (instToRemove N) N,
          u @ map (\<lambda>i. ReplaceAllUsesWithUndef (InstVal i)) (instToRemove N)),
         instToRemove N)"
  proof -
    fix N u
    show "fold sweepStep [0..<length (allInsts N)] ((N, u), []) =
        ((fold (\<lambda>i. replaceAllUsesWith (InstVal i) Undef) (instToRemove N) N,
          u @ map (\<lambda>i. ReplaceAllUsesWithUndef (InstVal i)) (instToRemove N)),
         instToRemove N)"
      using sweepStep_fold [of "[0..<length (allInsts N)]" N u "[]"]
      by (simp add: dead)
  qed
  show ?thesis
    by (simp add: stripClone_def 1 2 fold_eraseFunc fold_eraseInst prunedModule_def
        sweptModule_def)
qed

subsection \<open>The loop that selects the functions to keep\<close>

lemma covered_Nil [simp]: "\<not> covered [] j"
  by (simp add: covered_def)

lemma covered_Cons [simp]:
  "covered (c # cs) j = ((chunk_begin c \<le> j \<and> j \<le> chunk_end c) \<or> covered cs j)"
  by (simp add: covered_def)

lemma ascending_weaken: "ascending lo cs \<Longrightarrow> lo' \<le> lo \<Longrightarrow> ascending lo' cs"
  by (cases cs) auto

lemma ascending_not_covered: "ascending lo cs \<Longrightarrow> j < lo \<Longrightarrow> \<not> covered cs j"
  by (induction cs arbitrary: lo) force+

lemma ascending_last: "ascending lo (c # cs) \<Longrightarrow> chunk_end c \<le> chunk_end (last (c # cs))"
proof (induction cs arbitrary: c lo)
  case Nil
  then show ?case by simp
next
  case (Cons d ds)
  from Cons.prems have "ascending (chunk_end c + 1) (d # ds)" by simp
  from Cons.IH [OF this] Cons.prems show ?case by simp
qed

lemma targetUnits_lower: "u \<in> set (targetUnits Fs n) \<Longrightarrow> n \<le> snd u"
  by (induction Fs arbitrary: n) (force split: if_splits)+

lemma length_targetUnits:
  "length (targetUnits Fs n) = length (filter (\<lambda>F. \<not> isDeclaration F) Fs)"
  by (induction Fs arbitrary: n) auto

lemma map_fst_targetUnits:
  "map fst (targetUnits Fs n) = filter (\<lambda>F. \<not> isDeclaration F) Fs"
  by (induction Fs arbitrary: n) auto

lemma keptIn_above:
  assumes "\<forall>u\<in>set us. chunk_end c < snd u"
  shows "keptIn (c # cs) us = keptIn cs us"
proof -
  have "filter (\<lambda>u. covered (c # cs) (snd u)) us = filter (\<lambda>u. covered cs (snd u)) us"
    by (rule filter_cong [OF refl]) (use assms in force)
  then show ?thesis by (simp add: keptIn_def)
qed

lemma keepLoop_inv:
  assumes "I \<le> length cs" and "ascending lo (drop I cs)"
    and "I < length cs \<Longrightarrow> cnt \<le> chunk_end (cs ! I)"
  shows "keepLoop cs Fs I cnt keep =
     (if targetUnits Fs cnt = [] \<or>
         (I < length cs \<and> cnt + int (length (targetUnits Fs cnt)) - 1 \<le> chunk_end (last cs))
      then Inr (keep \<union> keptIn (drop I cs) (targetUnits Fs cnt))
      else Inl ChunkIndexOutOfBounds)"
  using assms
proof (induction Fs arbitrary: I cnt keep lo)
  case Nil
  then show ?case by (simp add: keptIn_def)
next
  case (Cons F Fs)
  show ?case
  proof (cases "isDeclaration F")
    case True
    with Cons.IH [OF Cons.prems] show ?thesis by simp
  next
    case defined: False
    show ?thesis
    proof (cases "I < length cs")
      case False
      with defined show ?thesis by simp
    next
      case inb: True
      let ?c = "cs ! I"
      let ?rest = "drop (Suc I) cs"
      have dropI: "drop I cs = ?c # ?rest"
        using inb by (simp add: Cons_nth_drop_Suc)
      have le_end: "cnt \<le> chunk_end ?c" using Cons.prems(3) inb by simp
      have asc: "ascending lo (?c # ?rest)" using Cons.prems(2) dropI by simp
      then have asc_rest: "ascending (chunk_end ?c + 1) ?rest" by simp
      have lastI: "last cs = last (?c # ?rest)"
        using inb dropI by (metis last_drop)
      have end_last: "chunk_end ?c \<le> chunk_end (last cs)"
        using ascending_last [OF asc] lastI by simp
      have not_rest: "\<not> covered ?rest cnt"
        using ascending_not_covered [OF asc_rest] le_end by simp
      let ?keep' = "if chunk_begin ?c \<le> cnt \<and> cnt \<le> chunk_end ?c
                    then insert (fid F) keep else keep"
      let ?us = "targetUnits Fs (cnt + 1)"
      show ?thesis
      proof (cases "chunk_end ?c \<le> cnt")
        case True
        with le_end have eq: "cnt = chunk_end ?c" by simp
        have step: "keepLoop cs (F # Fs) I cnt keep = keepLoop cs Fs (Suc I) (cnt + 1) ?keep'"
          using defined inb True by simp
        have p1: "Suc I \<le> length cs" using inb by simp
        have p3: "Suc I < length cs \<Longrightarrow> cnt + 1 \<le> chunk_end (cs ! Suc I)"
        proof -
          assume a: "Suc I < length cs"
          then have "?rest = cs ! Suc I # drop (Suc (Suc I)) cs"
            by (simp add: Cons_nth_drop_Suc)
          with asc_rest eq show ?thesis by (metis ascending.simps(2) order_trans)
        qed
        note ih = Cons.IH [OF p1 asc_rest p3, of ?keep']
        have above: "\<forall>u\<in>set ?us. chunk_end ?c < snd u"
          using targetUnits_lower [of _ Fs "cnt + 1"] eq by force
        have kept: "keep \<union> keptIn (drop I cs) (targetUnits (F # Fs) cnt) =
                    ?keep' \<union> keptIn ?rest ?us"
          using defined not_rest keptIn_above [OF above, of ?rest] le_end
          by (auto simp: dropI keptIn_def)
        have cond: "(I < length cs \<and>
                      cnt + int (length (targetUnits (F # Fs) cnt)) - 1 \<le> chunk_end (last cs)) =
                    (?us = [] \<or> (Suc I < length cs \<and>
                      cnt + 1 + int (length ?us) - 1 \<le> chunk_end (last cs)))"
        proof (cases "?us = []")
          case True
          with defined inb end_last eq show ?thesis by simp
        next
          case False
          then have pos: "0 < length ?us" by simp
          show ?thesis
          proof (cases "Suc I < length cs")
            case True
            with defined inb False show ?thesis by simp
          next
            case False
            then have "?rest = []" by simp
            with lastI eq have "chunk_end (last cs) = cnt" by simp
            with defined inb False pos show ?thesis by simp
          qed
        qed
        from defined have ne: "targetUnits (F # Fs) cnt \<noteq> []" by simp
        show ?thesis
          using trans [OF step ih] ne cond kept by (simp only: simp_thms)
      next
        case False
        with le_end have lt: "cnt < chunk_end ?c" by simp
        have step: "keepLoop cs (F # Fs) I cnt keep = keepLoop cs Fs I (cnt + 1) ?keep'"
          using defined inb False by simp
        have p3: "I < length cs \<Longrightarrow> cnt + 1 \<le> chunk_end (cs ! I)"
          using lt by simp
        note ih = Cons.IH [OF Cons.prems(1) Cons.prems(2) p3, of ?keep']
        have kept: "keep \<union> keptIn (drop I cs) (targetUnits (F # Fs) cnt) =
                    ?keep' \<union> keptIn (drop I cs) ?us"
          using defined not_rest le_end
          by (auto simp: dropI keptIn_def)
        have cond: "(I < length cs \<and>
                      cnt + int (length (targetUnits (F # Fs) cnt)) - 1 \<le> chunk_end (last cs)) =
                    (?us = [] \<or> (I < length cs \<and>
                      cnt + 1 + int (length ?us) - 1 \<le> chunk_end (last cs)))"
          using defined inb end_last lt by (cases "?us = []") simp_all
        from defined have ne: "targetUnits (F # Fs) cnt \<noteq> []" by simp
        show ?thesis
          using trans [OF step ih] ne cond kept by (simp only: simp_thms)
      qed
    qed
  qed
qed

subsection \<open>The whole run\<close>

lemma extract_Inr:
  assumes "Program < length (heap st)"
    and "keepLoop cs (functionList (heap st ! Program)) 0 1 {} = Inr keep"
  shows "extractChunksFromModule cs Program st =
           Inr (length (heap st),
                st\<lparr>heap := heap st @ [sweptModule (prunedModule keep (heap st ! Program))],
                   trace := trace st @ stripTrace keep (heap st ! Program)\<rparr>)"
  using assms
  by (simp add: extractChunksFromModule_def CloneModule_def nth_append stripClone_eq
      stripTrace_def)

lemma extract_Inl:
  assumes "Program < length (heap st)"
    and "keepLoop cs (functionList (heap st ! Program)) 0 1 {} = Inl e"
  shows "extractChunksFromModule cs Program st = Inl e"
  using assms
  by (simp add: extractChunksFromModule_def CloneModule_def nth_append)

lemma extract_InrE:
  assumes "extractChunksFromModule cs Program st = Inr (Clone, st')"
  obtains keep where "Program < length (heap st)"
    and "keepLoop cs (functionList (heap st ! Program)) 0 1 {} = Inr keep"
    and "Clone = length (heap st)"
    and "st' = st\<lparr>heap := heap st @ [sweptModule (prunedModule keep (heap st ! Program))],
                   trace := trace st @ stripTrace keep (heap st ! Program)\<rparr>"
proof -
  have p: "Program < length (heap st)"
    using assms by (auto simp: extractChunksFromModule_def split: if_splits)
  show ?thesis
  proof (cases "keepLoop cs (functionList (heap st ! Program)) 0 1 {}")
    case (Inl e)
    from extract_Inl [OF p Inl] assms show ?thesis by simp
  next
    case (Inr keep)
    from extract_Inr [OF p Inr] assms that [OF p Inr] show ?thesis by simp
  qed
qed

subsection \<open>What is left after the replacements and the erasures\<close>

lemma operands_substInst [simp]:
  "operands (substInst old new I) = map (substVal old new) (operands I)"
  by (cases I) simp_all

lemma allInsts_fold_rauw:
  "allInsts (fold (\<lambda>v. replaceAllUsesWith v Undef) vs M) =
     map (fold (\<lambda>v. substInst v Undef) vs) (allInsts M)"
  by (induction vs arbitrary: M) (simp_all add: comp_def)

lemma functionList_fold_rauw:
  "functionList (fold (\<lambda>v. replaceAllUsesWith v Undef) vs M) =
     map (fold (\<lambda>v. substFunc v Undef) vs) (functionList M)"
  by (induction vs arbitrary: M) (simp_all add: comp_def)

lemma fid_fold_substFunc [simp]: "fid (fold (\<lambda>v. substFunc v Undef) vs F) = fid F"
  by (induction vs arbitrary: F) simp_all

lemma isDeclaration_fold_substFunc [simp]:
  "isDeclaration (fold (\<lambda>v. substFunc v Undef) vs F) = isDeclaration F"
  by (induction vs arbitrary: F) simp_all

lemma operands_fold_substInst:
  "operands (fold (\<lambda>v. substInst v Undef) vs I) =
     map (fold (\<lambda>v. substVal v Undef) vs) (operands I)"
  by (induction vs arbitrary: I) (simp_all add: comp_def)

lemma instId_fold_substInst [simp]: "instId (fold (\<lambda>v. substInst v Undef) vs I) = instId I"
  by (induction vs arbitrary: I) simp_all

lemma isUndefCall_fold_substInst:
  "isUndefCall (fold (\<lambda>v. substInst v Undef) (map InstVal is) I) = isUndefCall I"
  by (induction "is" arbitrary: I) simp_all

lemma fold_substVal_cases: "fold (\<lambda>v. substVal v Undef) vs x = x \<or> fold (\<lambda>v. substVal v Undef) vs x = Undef"
proof (induction vs arbitrary: x)
  case Nil
  then show ?case by simp
next
  case (Cons a vs)
  from Cons.IH [of "substVal a Undef x"] Cons.IH [of Undef] show ?case
    by (auto simp: substVal_def split: if_splits)
qed

lemma fold_substVal_removes:
  assumes "v \<in> set vs" and "v \<noteq> Undef"
  shows "fold (\<lambda>v. substVal v Undef) vs x \<noteq> v"
  using assms(1)
proof (induction vs arbitrary: x)
  case Nil
  then show ?case by simp
next
  case (Cons a vs)
  show ?case
  proof (cases "v = a")
    case True
    have "substVal a Undef x \<noteq> v"
      using True assms(2) by (simp add: substVal_def)
    with fold_substVal_cases [of vs "substVal a Undef x"] assms(2)
    show ?thesis by auto
  next
    case False
    with Cons.prems have "v \<in> set vs" by simp
    from Cons.IH [OF this] show ?thesis by simp
  qed
qed

text \<open>After the uses of the values \<open>vs\<close> have been replaced, none of them is an operand.\<close>

lemma no_use_after_rauw:
  assumes "v \<in> set vs" and "v \<noteq> Undef"
    and "J \<in> set (allInsts (fold (\<lambda>v. replaceAllUsesWith v Undef) vs M))"
  shows "v \<notin> set (operands J)"
proof -
  from assms(3) obtain I where "J = fold (\<lambda>v. substInst v Undef) vs I"
    by (auto simp: allInsts_fold_rauw)
  then have "operands J = map (fold (\<lambda>v. substVal v Undef) vs) (operands I)"
    by (simp add: operands_fold_substInst)
  with fold_substVal_removes [OF assms(1,2)] show ?thesis by auto
qed

lemma fold_rauw_FuncVal:
  "fold (\<lambda>f. replaceAllUsesWith (FuncVal f) Undef) fs M =
   fold (\<lambda>v. replaceAllUsesWith v Undef) (map FuncVal fs) M"
  by (simp add: fold_map comp_def)

lemma fold_rauw_InstVal:
  "fold (\<lambda>i. replaceAllUsesWith (InstVal i) Undef) is M =
   fold (\<lambda>v. replaceAllUsesWith v Undef) (map InstVal is) M"
  by (simp add: fold_map comp_def)

lemma patched_no_use:
  assumes "f \<in> set (funcsToRemove keep M)" and "J \<in> set (allInsts (patchedModule keep M))"
  shows "FuncVal f \<notin> set (operands J)"
proof (rule no_use_after_rauw)
  show "FuncVal f \<in> set (map FuncVal (funcsToRemove keep M))" using assms(1) by simp
  show "FuncVal f \<noteq> Undef" by simp
  show "J \<in> set (allInsts (fold (\<lambda>v. replaceAllUsesWith v Undef)
                  (map FuncVal (funcsToRemove keep M)) M))"
    using assms(2) by (simp add: patchedModule_def fold_rauw_FuncVal)
qed

lemma allInsts_eraseInstruction [simp]:
  "allInsts (eraseInstruction i M) = filter (\<lambda>I. instId I \<noteq> i) (allInsts M)"
  by (simp add: allInsts_def eraseInstruction_def eraseInstFunc_def filter_concat comp_def)

lemma allInsts_fold_eraseInstruction:
  "allInsts (fold eraseInstruction is M) = filter (\<lambda>I. instId I \<notin> set is) (allInsts M)"
  by (induction "is" arbitrary: M) (auto intro!: filter_cong)

lemma functionList_eraseFunction [simp]:
  "functionList (eraseFunction f M) = filter (\<lambda>F. fid F \<noteq> f) (functionList M)"
  by (simp add: eraseFunction_def)

lemma functionList_fold_eraseFunction:
  "functionList (fold eraseFunction fs M) = filter (\<lambda>F. fid F \<notin> set fs) (functionList M)"
  by (induction fs arbitrary: M) (auto intro!: filter_cong)

lemma swept_insts:
  "allInsts (sweptModule M) =
     filter (\<lambda>I. instId I \<notin> set (instToRemove M))
       (map (fold (\<lambda>v. substInst v Undef) (map InstVal (instToRemove M))) (allInsts M))"
  by (simp add: sweptModule_def allInsts_fold_eraseInstruction fold_rauw_InstVal
      allInsts_fold_rauw)

lemma swept_no_undef_call:
  assumes "J \<in> set (allInsts (sweptModule M))"
  shows "\<not> isUndefCall J"
proof
  assume u: "isUndefCall J"
  from assms obtain I where I: "I \<in> set (allInsts M)"
    and J: "J = fold (\<lambda>v. substInst v Undef) (map InstVal (instToRemove M)) I"
    and keep: "instId J \<notin> set (instToRemove M)"
    by (auto simp: swept_insts)
  from u J have "isUndefCall I" by (simp add: isUndefCall_fold_substInst)
  with I have "instId I \<in> set (instToRemove M)" by (auto simp: instToRemove_def)
  with keep J show False by simp
qed

lemma swept_no_use:
  assumes "i \<in> set (instToRemove M)" and "J \<in> set (allInsts (sweptModule M))"
  shows "InstVal i \<notin> set (operands J)"
proof -
  from assms(2) have "J \<in> set (allInsts (fold (\<lambda>v. replaceAllUsesWith v Undef)
      (map InstVal (instToRemove M)) M))"
    by (auto simp: swept_insts allInsts_fold_rauw)
  moreover have "InstVal i \<in> set (map InstVal (instToRemove M))" using assms(1) by simp
  ultimately show ?thesis using no_use_after_rauw by blast
qed

lemma swept_changes:
  assumes "I \<in> set (allInsts M)" and "isUndefCall I"
  shows "sweptModule M \<noteq> M"
  using assms swept_no_undef_call by metis

subsection \<open>Kept chunk sets that are valid\<close>

lemma ascending_end_le_last:
  "ascending lo cs \<Longrightarrow> c \<in> set cs \<Longrightarrow> chunk_end c \<le> chunk_end (last cs)"
proof (induction cs arbitrary: lo)
  case Nil
  then show ?case by simp
next
  case (Cons d ds)
  show ?case
  proof (cases "c = d")
    case True
    with ascending_last [OF Cons.prems(1)] show ?thesis by simp
  next
    case False
    with Cons.prems have "c \<in> set ds" and "ascending (chunk_end d + 1) ds" by auto
    from Cons.IH [OF this(2) this(1)] \<open>c \<in> set ds\<close> show ?thesis by auto
  qed
qed

lemma targetUnits_upper:
  "u \<in> set (targetUnits Fs n) \<Longrightarrow> snd u < n + int (length (targetUnits Fs n))"
  by (induction Fs arbitrary: n) (force split: if_splits)+

lemma keepLoop_valid:
  assumes "validChunks N cs"
  shows "keepLoop cs Fs 0 1 {} =
     (if targetUnits Fs 1 = [] \<or>
         (cs \<noteq> [] \<and> int (length (targetUnits Fs 1)) \<le> chunk_end (last cs))
      then Inr (keptIn cs (targetUnits Fs 1))
      else Inl ChunkIndexOutOfBounds)"
proof -
  have asc: "ascending 1 (drop 0 cs)" using assms by (simp add: validChunks_def)
  have hd: "0 < length cs \<Longrightarrow> 1 \<le> chunk_end (cs ! 0)"
    using asc by (cases cs) auto
  from keepLoop_inv [OF _ asc hd, of Fs "{}"] show ?thesis by simp
qed

lemma keepLoop_covering:
  assumes v: "validChunks (int (length (definedFunctions M))) cs"
    and cov: "\<forall>j\<in>{1..int (length (definedFunctions M))}. covered cs j"
  shows "\<exists>keep. keepLoop cs (functionList M) 0 1 {} = Inr keep \<and> funcsToRemove keep M = []"
proof -
  let ?Fs = "functionList M"
  let ?N = "int (length (definedFunctions M))"
  have len: "length (targetUnits ?Fs 1) = length (definedFunctions M)"
    by (simp add: length_targetUnits definedFunctions_def)
  have inb: "targetUnits ?Fs 1 = [] \<or> (cs \<noteq> [] \<and> int (length (targetUnits ?Fs 1)) \<le> chunk_end (last cs))"
  proof (cases "targetUnits ?Fs 1 = []")
    case True
    then show ?thesis by simp
  next
    case False
    with len have "?N \<in> {1..?N}" by (cases "definedFunctions M") auto
    with cov have "covered cs ?N" by blast
    then obtain c where c: "c \<in> set cs" "?N \<le> chunk_end c"
      by (auto simp: covered_def list_ex_iff)
    from v have "ascending 1 cs" by (simp add: validChunks_def)
    from ascending_end_le_last [OF this c(1)] c len show ?thesis by auto
  qed
  with keepLoop_valid [OF v, of ?Fs]
  have k: "keepLoop cs ?Fs 0 1 {} = Inr (keptIn cs (targetUnits ?Fs 1))" by simp
  have "filter (outOfChunk (keptIn cs (targetUnits ?Fs 1))) ?Fs = []"
  proof -
    have "\<not> outOfChunk (keptIn cs (targetUnits ?Fs 1)) F" if F: "F \<in> set ?Fs" for F
    proof (cases "isDeclaration F")
      case True
      then show ?thesis by (simp add: outOfChunk_def)
    next
      case False
      with F have "F \<in> set (map fst (targetUnits ?Fs 1))"
        by (simp add: map_fst_targetUnits)
      then obtain u where u: "u \<in> set (targetUnits ?Fs 1)" "fst u = F" by auto
      from targetUnits_lower [OF u(1)] targetUnits_upper [OF u(1)] len
      have "snd u \<in> {1..?N}" by simp
      with cov have "covered cs (snd u)" by blast
      with u have "fid F \<in> keptIn cs (targetUnits ?Fs 1)"
        by (force simp: keptIn_def)
      then show ?thesis by (simp add: outOfChunk_def)
    qed
    then show ?thesis by (simp add: filter_empty_conv)
  qed
  then have "funcsToRemove (keptIn cs (targetUnits ?Fs 1)) M = []"
    by (simp add: funcsToRemove_def)
  with k show ?thesis by blast
qed

lemma functionList_eraseInstruction [simp]:
  "functionList (eraseInstruction i M) = map (eraseInstFunc i) (functionList M)"
  by (simp add: eraseInstruction_def)

lemma fid_eraseInstFunc [simp]: "fid (eraseInstFunc i F) = fid F"
  by (simp add: eraseInstFunc_def)

lemma isDeclaration_eraseInstFunc [simp]: "isDeclaration (eraseInstFunc i F) = isDeclaration F"
  by (simp add: eraseInstFunc_def isDeclaration_def)

lemma fids_fold_eraseInstruction [simp]:
  "map fid (functionList (fold eraseInstruction is M)) = map fid (functionList M)"
  by (induction "is" arbitrary: M) (simp_all add: comp_def)

lemma decls_fold_eraseInstruction [simp]:
  "map isDeclaration (functionList (fold eraseInstruction is M)) =
   map isDeclaration (functionList M)"
  by (induction "is" arbitrary: M) (simp_all add: comp_def)

lemma fids_sweptModule:
  "map fid (functionList (sweptModule M)) = map fid (functionList M)"
  by (simp add: sweptModule_def fold_rauw_InstVal functionList_fold_rauw comp_def)

lemma fids_prunedModule:
  "map fid (functionList (prunedModule keep M)) =
     filter (\<lambda>f. f \<notin> set (funcsToRemove keep M)) (map fid (functionList M))"
  by (simp add: prunedModule_def patchedModule_def functionList_fold_eraseFunction
      fold_rauw_FuncVal functionList_fold_rauw filter_map comp_def)

subsection \<open>The candidate where no chunk is read out of bounds\<close>

lemma fid_fold_eraseInstFunc [simp]: "fid (fold eraseInstFunc is F) = fid F"
  by (induction "is" arbitrary: F) simp_all

lemma isDeclaration_fold_eraseInstFunc [simp]:
  "isDeclaration (fold eraseInstFunc is F) = isDeclaration F"
  by (induction "is" arbitrary: F) simp_all

lemma fid_patchFunc [simp]: "fid (patchFunc fs is F) = fid F"
  by (simp add: patchFunc_def)

lemma isDeclaration_patchFunc [simp]: "isDeclaration (patchFunc fs is F) = isDeclaration F"
  by (simp add: patchFunc_def)

lemma functionList_fold_eraseInstruction:
  "functionList (fold eraseInstruction is M) = map (fold eraseInstFunc is) (functionList M)"
  by (induction "is" arbitrary: M) (simp_all add: comp_def)

lemma functionList_stripped:
  "functionList (sweptModule (prunedModule keep M)) =
     map (patchFunc (funcsToRemove keep M) (instToRemove (prunedModule keep M)))
       (filter (\<lambda>F. fid F \<notin> set (funcsToRemove keep M)) (functionList M))"
proof -
  have "functionList (prunedModule keep M) =
          map (fold (\<lambda>v. substFunc v Undef) (map FuncVal (funcsToRemove keep M)))
            (filter (\<lambda>F. fid F \<notin> set (funcsToRemove keep M)) (functionList M))"
    by (simp add: prunedModule_def patchedModule_def functionList_fold_eraseFunction
        fold_rauw_FuncVal functionList_fold_rauw filter_map comp_def)
  then show ?thesis
    by (simp add: sweptModule_def functionList_fold_eraseInstruction fold_rauw_InstVal
        functionList_fold_rauw patchFunc_def comp_def)
qed

lemma removed_iff_outOfChunk:
  assumes "distinct (map fid (functionList M))" and "F \<in> set (functionList M)"
  shows "fid F \<in> set (funcsToRemove keep M) \<longleftrightarrow> outOfChunk keep F"
proof
  assume "fid F \<in> set (funcsToRemove keep M)"
  then obtain G where G: "G \<in> set (functionList M)" "outOfChunk keep G" "fid G = fid F"
    by (auto simp: funcsToRemove_def)
  from assms(1) have "inj_on fid (set (functionList M))" by (simp add: distinct_map)
  with G assms(2) have "G = F" by (auto dest: inj_onD)
  with G show "outOfChunk keep F" by simp
next
  assume "outOfChunk keep F"
  with assms(2) show "fid F \<in> set (funcsToRemove keep M)"
    by (auto simp: funcsToRemove_def)
qed

lemma targetUnits_member: "(F, j) \<in> set (targetUnits Fs n) \<Longrightarrow> F \<in> set Fs \<and> \<not> isDeclaration F"
  by (induction Fs arbitrary: n) (auto split: if_splits)

lemma kept_iff_covered:
  assumes d: "distinct (map fid Fs)" and u: "(F, j) \<in> set (targetUnits Fs n)"
  shows "fid F \<in> keptIn cs (targetUnits Fs n) \<longleftrightarrow> covered cs j"
proof
  assume "fid F \<in> keptIn cs (targetUnits Fs n)"
  then obtain G i where G: "(G, i) \<in> set (targetUnits Fs n)" "covered cs i" "fid G = fid F"
    by (auto simp: keptIn_def)
  from d have inj: "inj_on fid (set Fs)" and dFs: "distinct Fs" by (simp_all add: distinct_map)
  from G(1) u targetUnits_member have "G \<in> set Fs" "F \<in> set Fs" by blast+
  with inj G(3) have "G = F" by (auto dest: inj_onD)
  have "distinct (map fst (targetUnits Fs n))"
    using dFs by (simp add: map_fst_targetUnits)
  from eq_key_imp_eq_value [OF this] G(1) u \<open>G = F\<close> have "i = j" by blast
  with G(2) show "covered cs j" by simp
next
  assume "covered cs j"
  with u show "fid F \<in> keptIn cs (targetUnits Fs n)" by (force simp: keptIn_def)
qed

lemma targetUnits_index:
  "n \<le> j \<Longrightarrow> j < n + int (length (targetUnits Fs n)) \<Longrightarrow> \<exists>F. (F, j) \<in> set (targetUnits Fs n)"
proof (induction Fs arbitrary: n)
  case Nil
  then show ?case by simp
next
  case (Cons G Fs)
  show ?case
  proof (cases "isDeclaration G")
    case True
    with Cons show ?thesis by simp
  next
    case False
    show ?thesis
    proof (cases "j = n")
      case True
      with False show ?thesis by auto
    next
      case ne: False
      with Cons.prems False have "n + 1 \<le> j" "j < n + 1 + int (length (targetUnits Fs (n + 1)))"
        by auto
      from Cons.IH [OF this] False show ?thesis by auto
    qed
  qed
qed

text \<open>
  Where no chunk is read out of bounds, the function list of the result consists of
  copies (with patched bodies) of the declarations and of the definitions whose index
  lies inside a kept chunk, in the order of the input.
\<close>

lemma extract_keeps_chunks:
  assumes p: "Program < length (heap st)"
    and v: "validChunks N cs"
    and d: "distinct (map fid (functionList (heap st ! Program)))"
    and inb: "targetUnits (functionList (heap st ! Program)) 1 = [] \<or>
              (cs \<noteq> [] \<and> int (length (targetUnits (functionList (heap st ! Program)) 1))
                 \<le> chunk_end (last cs))"
  shows "\<exists>st' fs is. extractChunksFromModule cs Program st = Inr (length (heap st), st') \<and>
           functionList (heap st' ! length (heap st)) =
             map (patchFunc fs is)
               (filter (\<lambda>F. isDeclaration F \<or>
                            (\<exists>j. (F, j) \<in> set (targetUnits (functionList (heap st ! Program)) 1) \<and>
                                 covered cs j))
                  (functionList (heap st ! Program)))"
proof -
  let ?M = "heap st ! Program"
  let ?us = "targetUnits (functionList ?M) 1"
  let ?keep = "keptIn cs ?us"
  from keepLoop_valid [OF v, of "functionList ?M"] inb
  have k: "keepLoop cs (functionList ?M) 0 1 {} = Inr ?keep" by simp
  have sel: "filter (\<lambda>F. fid F \<notin> set (funcsToRemove ?keep ?M)) (functionList ?M) =
             filter (\<lambda>F. isDeclaration F \<or> (\<exists>j. (F, j) \<in> set ?us \<and> covered cs j))
               (functionList ?M)"
  proof (rule filter_cong [OF refl])
    fix F assume F: "F \<in> set (functionList ?M)"
    show "(fid F \<notin> set (funcsToRemove ?keep ?M)) =
          (isDeclaration F \<or> (\<exists>j. (F, j) \<in> set ?us \<and> covered cs j))"
    proof (cases "isDeclaration F")
      case True
      with removed_iff_outOfChunk [OF d F, of ?keep] show ?thesis
        by (simp add: outOfChunk_def)
    next
      case False
      with F have "F \<in> set (map fst ?us)" by (simp add: map_fst_targetUnits)
      then obtain j where j: "(F, j) \<in> set ?us" by force
      have uniq: "j' = j" if "(F, j') \<in> set ?us" for j'
      proof -
        from d have "distinct (map fst ?us)"
          by (simp add: map_fst_targetUnits distinct_map)
        from eq_key_imp_eq_value [OF this that j] show ?thesis .
      qed
      have "fid F \<notin> set (funcsToRemove ?keep ?M) \<longleftrightarrow> fid F \<in> ?keep"
        using removed_iff_outOfChunk [OF d F, of ?keep] False by (simp add: outOfChunk_def)
      also have "\<dots> \<longleftrightarrow> covered cs j" by (rule kept_iff_covered [OF d j])
      also have "\<dots> \<longleftrightarrow> (\<exists>j'. (F, j') \<in> set ?us \<and> covered cs j')" using j uniq by blast
      finally show ?thesis using False by simp
    qed
  qed
  let ?st' = "st\<lparr>heap := heap st @ [sweptModule (prunedModule ?keep ?M)],
                 trace := trace st @ stripTrace ?keep ?M\<rparr>"
  have e: "extractChunksFromModule cs Program st = Inr (length (heap st), ?st')"
    by (rule extract_Inr [OF p k])
  have h: "heap ?st' ! length (heap st) = sweptModule (prunedModule ?keep ?M)" by simp
  have fl: "functionList (heap ?st' ! length (heap st)) =
      map (patchFunc (funcsToRemove ?keep ?M) (instToRemove (prunedModule ?keep ?M)))
        (filter (\<lambda>F. isDeclaration F \<or> (\<exists>j. (F, j) \<in> set ?us \<and> covered cs j))
           (functionList ?M))"
    unfolding h functionList_stripped sel ..
  from e fl show ?thesis by blast
qed

lemma length_filter_conj_less:
  assumes "x \<in> set xs" and "P x" and "\<not> Q x"
  shows "length (filter (\<lambda>x. P x \<and> Q x) xs) < length (filter P xs)"
proof -
  have "filter (\<lambda>x. P x \<and> Q x) xs = filter Q (filter P xs)" by (simp add: conj_commute)
  moreover have "length (filter Q (filter P xs)) < length (filter P xs)"
    using assms by (intro length_filter_less [of x]) simp_all
  ultimately show ?thesis by simp
qed

text \<open>
  Where no chunk is read out of bounds and some target index lies in no kept chunk, the
  result has fewer target units than the input.
\<close>

lemma extract_fewer_targets:
  assumes p: "Program < length (heap st)"
    and v: "validChunks N cs"
    and d: "distinct (map fid (functionList (heap st ! Program)))"
    and inb: "cs \<noteq> [] \<and> int (length (definedFunctions (heap st ! Program))) \<le> chunk_end (last cs)"
    and j: "1 \<le> j" "j \<le> int (length (definedFunctions (heap st ! Program)))" "\<not> covered cs j"
  shows "\<exists>st'. extractChunksFromModule cs Program st = Inr (length (heap st), st') \<and>
           length (definedFunctions (heap st' ! length (heap st))) <
           length (definedFunctions (heap st ! Program))"
proof -
  let ?M = "heap st ! Program"
  let ?Fs = "functionList ?M"
  let ?us = "targetUnits ?Fs 1"
  have len: "length ?us = length (definedFunctions ?M)"
    by (simp add: length_targetUnits definedFunctions_def)
  from inb len have inb': "?us = [] \<or> (cs \<noteq> [] \<and> int (length ?us) \<le> chunk_end (last cs))"
    by simp
  from extract_keeps_chunks [OF p v d inb'] obtain st' fs "is" where
    e: "extractChunksFromModule cs Program st = Inr (length (heap st), st')"
    and fl: "functionList (heap st' ! length (heap st)) =
             map (patchFunc fs is)
               (filter (\<lambda>F. isDeclaration F \<or> (\<exists>j. (F, j) \<in> set ?us \<and> covered cs j)) ?Fs)"
    by blast
  from targetUnits_index [of 1 j ?Fs] j len obtain F where F: "(F, j) \<in> set ?us" by auto
  from targetUnits_member [OF F] have Fm: "F \<in> set ?Fs" "\<not> isDeclaration F" by simp_all
  have uniq: "j' = j" if "(F, j') \<in> set ?us" for j'
  proof -
    from d have "distinct (map fst ?us)"
      by (simp add: map_fst_targetUnits distinct_map)
    from eq_key_imp_eq_value [OF this that F] show ?thesis .
  qed
  have notkept: "\<not> (\<exists>j'. (F, j') \<in> set ?us \<and> covered cs j')"
    using uniq j(3) by blast
  have "definedFunctions (heap st' ! length (heap st)) =
          map (patchFunc fs is)
            (filter (\<lambda>F. \<not> isDeclaration F \<and> (\<exists>j. (F, j) \<in> set ?us \<and> covered cs j)) ?Fs)"
    unfolding definedFunctions_def fl
    by (simp add: filter_map comp_def) (metis (mono_tags, lifting) filter_cong)
  then have "length (definedFunctions (heap st' ! length (heap st))) =
          length (filter (\<lambda>F. \<not> isDeclaration F \<and> (\<exists>j. (F, j) \<in> set ?us \<and> covered cs j)) ?Fs)"
    by simp
  also have "\<dots> < length (filter (\<lambda>F. \<not> isDeclaration F) ?Fs)"
    using Fm notkept by (intro length_filter_conj_less [of F]) simp_all
  finally show ?thesis using e by (auto simp: definedFunctions_def)
qed

subsection \<open>What the sweep leaves in every run\<close>

lemma isUndefCall_substInst_Undef: "isUndefCall I \<Longrightarrow> isUndefCall (substInst v Undef I)"
proof (cases I)
  case (CallInst i callee args)
  assume "isUndefCall I"
  with CallInst show ?thesis by (cases callee) (simp_all add: substVal_def)
next
  case (OtherInst i ops)
  assume "isUndefCall I"
  with OtherInst show ?thesis by simp
qed

lemma isUndefCall_fold_substInst_Undef:
  "isUndefCall I \<Longrightarrow> isUndefCall (fold (\<lambda>v. substInst v Undef) vs I)"
  by (induction vs arbitrary: I) (simp_all add: isUndefCall_substInst_Undef)

lemma blocks_fold_substFunc:
  "blocks (fold (\<lambda>v. substFunc v Undef) vs F) =
     map (map (fold (\<lambda>v. substInst v Undef) vs)) (blocks F)"
  by (induction vs arbitrary: F) (simp_all add: substFunc_def comp_def)

text \<open>
  A call without a called function in a function that is not removed is still such a call
  when the sweep starts.
\<close>

lemma kept_undef_call_pruned:
  assumes F: "F \<in> set (functionList M)" and k: "fid F \<notin> set (funcsToRemove keep M)"
    and I: "I \<in> set (concat (blocks F))" and u: "isUndefCall I"
  shows "\<exists>I'\<in>set (allInsts (prunedModule keep M)). isUndefCall I' \<and> instId I' = instId I"
proof -
  let ?vs = "map FuncVal (funcsToRemove keep M)"
  let ?F' = "fold (\<lambda>v. substFunc v Undef) ?vs F"
  let ?I' = "fold (\<lambda>v. substInst v Undef) ?vs I"
  have fl: "functionList (prunedModule keep M) =
          map (fold (\<lambda>v. substFunc v Undef) ?vs)
            (filter (\<lambda>F. fid F \<notin> set (funcsToRemove keep M)) (functionList M))"
    by (simp add: prunedModule_def patchedModule_def functionList_fold_eraseFunction
        fold_rauw_FuncVal functionList_fold_rauw filter_map comp_def)
  from F k have "?F' \<in> set (functionList (prunedModule keep M))"
    unfolding fl by simp
  moreover from I have "?I' \<in> set (concat (blocks ?F'))"
    by (auto simp: blocks_fold_substFunc)
  ultimately have "?I' \<in> set (allInsts (prunedModule keep M))"
    unfolding allInsts_def by auto
  moreover have "isUndefCall ?I'" using u by (rule isUndefCall_fold_substInst_Undef)
  moreover have "instId ?I' = instId I" by simp
  ultimately show ?thesis by blast
qed

text \<open>What the sweep leaves, for every run that returns.\<close>

lemma swept_result:
  assumes J: "J \<in> set (allInsts (sweptModule N))"
  shows "\<not> isUndefCall J \<and>
         (\<forall>I\<in>set (allInsts N). isUndefCall I \<longrightarrow>
            instId J \<noteq> instId I \<and> InstVal (instId I) \<notin> set (operands J))"
proof (intro conjI ballI impI)
  show "\<not> isUndefCall J" using swept_no_undef_call [OF J] .
  fix I assume I: "I \<in> set (allInsts N)" "isUndefCall I"
  then have d: "instId I \<in> set (instToRemove N)" by (auto simp: instToRemove_def)
  from J d show "instId J \<noteq> instId I" by (auto simp: swept_insts)
  from swept_no_use [OF d J] show "InstVal (instId I) \<notin> set (operands J)" .
qed

section \<open>Lemmas about the chunk model and the bisection engine\<close>

lemma covered_append: "covered (xs @ ys) j = (covered xs j \<or> covered ys j)"
  by (simp add: covered_def)

lemma ascending_append:
  "ascending lo (pre @ rest) \<Longrightarrow>
     \<exists>lo'. lo \<le> lo' \<and> ascending lo' rest \<and> (\<forall>p\<in>set pre. chunk_end p < lo')"
proof (induction pre arbitrary: lo)
  case Nil
  then show ?case by auto
next
  case (Cons p pre)
  from Cons.prems have a: "ascending (chunk_end p + 1) (pre @ rest)"
    and b: "lo \<le> chunk_begin p" "chunk_begin p \<le> chunk_end p" by auto
  from Cons.IH [OF a] obtain lo' where
    "chunk_end p + 1 \<le> lo'" "ascending lo' rest" "\<forall>q\<in>set pre. chunk_end q < lo'" by blast
  with b show ?case by (intro exI [of _ lo']) auto
qed

text \<open>The first index of a chunk lies in no other chunk of an ascending sequence.\<close>

lemma dropped_chunk_uncovered:
  assumes "ascending lo (pre @ c # post)"
  shows "\<not> covered (pre @ post) (chunk_begin c)"
proof -
  from ascending_append [OF assms] obtain lo' where
    a: "ascending lo' (c # post)" and p: "\<forall>p\<in>set pre. chunk_end p < lo'" by blast
  from a have le: "lo' \<le> chunk_begin c" "chunk_begin c \<le> chunk_end c"
    and post: "ascending (chunk_end c + 1) post" by auto
  from p le have "\<not> covered pre (chunk_begin c)"
    by (auto simp: covered_def list_ex_iff)
  moreover from ascending_not_covered [OF post, of "chunk_begin c"] le
  have "\<not> covered post (chunk_begin c)" by simp
  ultimately show ?thesis by (simp add: covered_append)
qed

lemma chunk_step:
  fixes K N i :: nat
  assumes "1 \<le> K" and "K \<le> N"
  shows "i * N div K + 1 \<le> (i + 1) * N div K"
proof -
  have "0 < K" using assms by simp
  then have "i * N div K + 1 = (i * N + K) div K" by (simp add: div_add_self2)
  also have "\<dots> \<le> (i * N + N) div K" using assms by (intro div_le_mono) simp
  finally show ?thesis by (simp add: algebra_simps)
qed

lemma computeChunks_ascending_from:
  assumes "1 \<le> K" and "K \<le> N"
  shows "ascending (int (i * N div K) + 1)
           (map (\<lambda>j. \<lparr>chunk_begin = int (j * N div K) + 1,
                      chunk_end = int ((j + 1) * N div K)\<rparr>) [i..<K])"
proof (induction "K - i" arbitrary: i)
  case 0
  then show ?case by simp
next
  case (Suc d)
  then have lt: "i < K" and d: "d = K - Suc i" by auto
  have "[i..<K] = i # [Suc i..<K]" using lt by (simp add: upt_conv_Cons)
  moreover have "int (i * N div K) + 1 \<le> int ((i + 1) * N div K)"
    using chunk_step [OF assms, of i] by linarith
  moreover have "ascending (int (Suc i * N div K) + 1)
           (map (\<lambda>j. \<lparr>chunk_begin = int (j * N div K) + 1,
                      chunk_end = int ((j + 1) * N div K)\<rparr>) [Suc i..<K])"
    using Suc.hyps(1) [OF d] .
  ultimately show ?case by simp
qed

lemma computeChunks_valid:
  assumes "1 \<le> K" and "K \<le> N"
  shows "validChunks (int N) (computeChunks N K)"
proof -
  have "ascending 1 (computeChunks N K)"
    using computeChunks_ascending_from [OF assms, of 0] by (simp add: computeChunks_def)
  moreover have "(j + 1) * N div K \<le> N" if "j < K" for j
  proof -
    from that have "(j + 1) * N \<le> K * N" by (intro mult_le_mono1) simp
    then have "(j + 1) * N div K \<le> K * N div K" by (rule div_le_mono)
    with assms show ?thesis by simp
  qed
  ultimately show ?thesis
    by (simp add: validChunks_def computeChunks_def list_all_iff)
qed

lemma trySweep_Some:
  assumes "trySweep P test best pre post calls = (Some candidate, calls')"
  shows "\<exists>pre' c post'. pre @ post = pre' @ c # post' \<and>
           candidate = reduce P best (pre' @ post') \<and> test candidate"
  using assms
proof (induction post arbitrary: pre calls)
  case Nil
  then show ?case by simp
next
  case (Cons c post)
  show ?case
  proof (cases "test (reduce P best (pre @ post))")
    case True
    with Cons.prems have "candidate = reduce P best (pre @ post)" by (simp add: Let_def)
    with True show ?thesis by blast
  next
    case False
    with Cons.prems have "trySweep P test best (pre @ [c]) post (calls + 1) =
        (Some candidate, calls')" by (simp add: Let_def)
    from Cons.IH [OF this] show ?thesis by simp
  qed
qed

text \<open>A successful removal at granularity \<open>K \<le> N\<close> leaves fewer target units.\<close>

lemma success_decreases:
  assumes contract: "\<forall>a kept. (\<exists>j\<in>{1..int (countTargets P a)}. \<not> covered kept j) \<longrightarrow>
             countTargets P (reduce P a kept) < countTargets P a"
    and N: "countTargets P best = N" and K: "1 \<le> K" "K \<le> N"
    and s: "trySweep P test best [] (computeChunks N K) calls = (Some candidate, calls')"
  shows "countTargets P candidate < N"
proof -
  from trySweep_Some [OF s] obtain pre c post where
    split: "computeChunks N K = pre @ c # post"
    and cand: "candidate = reduce P best (pre @ post)" by auto
  from computeChunks_valid [OF K] split
  have asc: "ascending 1 (pre @ c # post)" and ends: "chunk_end c \<le> int N"
    by (auto simp: validChunks_def list_all_iff)
  from ascending_append [OF asc] have "1 \<le> chunk_begin c" "chunk_begin c \<le> chunk_end c"
    by auto
  with ends have "chunk_begin c \<in> {1..int (countTargets P best)}" using N by simp
  with dropped_chunk_uncovered [OF asc] contract cand N show ?thesis by blast
qed

lemma bisect_halts_from:
  assumes contract: "\<forall>a kept. (\<exists>j\<in>{1..int (countTargets P a)}. \<not> covered kept j) \<longrightarrow>
             countTargets P (reduce P a kept) < countTargets P a"
  shows "countTargets P best = N \<Longrightarrow> 1 \<le> K \<Longrightarrow>
         \<exists>best' calls'. bisect P test best N K calls = Some (best', calls') \<and>
                        countTargets P best' \<le> N"
proof (induction N arbitrary: best K calls rule: less_induct)
  case (less N)
  note outer = less.IH
  from less.prems show ?case
  proof (induction "N + 1 - K" arbitrary: K calls rule: less_induct)
    case inner: less
    show ?case
    proof (cases "K \<le> N")
      case False
      then show ?thesis using inner.prems by (subst bisect.simps) simp
    next
      case True
      obtain r calls1 where sw: "trySweep P test best [] (computeChunks N K) calls = (r, calls1)"
        by (cases "trySweep P test best [] (computeChunks N K) calls")
      show ?thesis
      proof (cases r)
        case None
        have "N + 1 - 2 * K < N + 1 - K" using True inner.prems by simp
        from inner.hyps [OF this inner.prems(1)] inner.prems(2)
        obtain best' calls' where
          "bisect P test best N (2 * K) calls1 = Some (best', calls')"
          "countTargets P best' \<le> N" by force
        with True sw None show ?thesis by (subst bisect.simps) simp
      next
        case (Some candidate)
        with sw have s: "trySweep P test best [] (computeChunks N K) calls =
            (Some candidate, calls1)" by simp
        from success_decreases [OF contract inner.prems(1) inner.prems(2) True s]
        have lt: "countTargets P candidate < N" .
        from outer [OF lt refl, of 2 calls1]
        obtain best' calls' where
          "bisect P test candidate (countTargets P candidate) 2 calls1 = Some (best', calls')"
          "countTargets P best' \<le> countTargets P candidate" by force
        with True sw Some lt show ?thesis by (subst bisect.simps) simp
      qed
    qed
  qed
qed

lemma listPass_contract:
  "\<forall>a kept. (\<exists>j\<in>{1..int (countTargets listPass a)}. \<not> covered kept j) \<longrightarrow>
      countTargets listPass (reduce listPass a kept) < countTargets listPass a"
proof (intro allI impI)
  fix a :: "nat list" and kept
  assume "\<exists>j\<in>{1..int (countTargets listPass a)}. \<not> covered kept j"
  then obtain j where j: "1 \<le> j" "j \<le> int (length a)" "\<not> covered kept j"
    by (auto simp: listPass_def)
  let ?zs = "enumerate 1 a"
  have len: "length ?zs = length a" by simp
  have "(nat j, a ! (nat j - 1)) \<in> set ?zs"
  proof -
    have "nat j - 1 < length ?zs" using j by simp
    then have "?zs ! (nat j - 1) \<in> set ?zs" by (rule nth_mem)
    moreover have "?zs ! (nat j - 1) = (nat j, a ! (nat j - 1))"
      using j by (simp add: nth_enumerate_eq)
    ultimately show ?thesis by simp
  qed
  moreover have "\<not> covered kept (int (fst (nat j, a ! (nat j - 1))))" using j by simp
  ultimately have "length (filter (\<lambda>u. covered kept (int (fst u))) ?zs) < length ?zs"
    by (rule length_filter_less)
  then show "countTargets listPass (reduce listPass a kept) < countTargets listPass a"
    by (simp add: listPass_def)
qed

text \<open>With the pass that removes nothing and an oracle that accepts everything, the search
  restarts for ever.\<close>

lemma idPass_sweep:
  assumes "1 \<le> K"
  shows "trySweep idPass (\<lambda>a. True) best [] (computeChunks N K) calls = (Some best, calls + 1)"
proof -
  from assms have "[0..<K] = 0 # [1..<K]" by (simp add: upt_conv_Cons)
  then obtain c post where "computeChunks N K = c # post"
    by (simp add: computeChunks_def)
  then show ?thesis by (simp add: idPass_def)
qed

lemma idPass_never_returns:
  assumes "bisect P test best N K calls = Some y"
  shows "\<not> (P = idPass \<and> test = (\<lambda>a. True) \<and> N = length best \<and> 2 \<le> N \<and> 1 \<le> K \<and> K \<le> N)"
proof -
  let ?Q = "\<lambda>x (y :: nat list \<times> nat).
     case x of (((((P, test), best), N), K), calls :: nat) \<Rightarrow>
       \<not> (P = idPass \<and> test = (\<lambda>a. True) \<and> N = length best \<and> 2 \<le> N \<and> 1 \<le> K \<and> K \<le> N)"
  have "?Q (((((P, test), best), N), K), calls) y"
  proof (rule bisect.raw_induct [where Pa = ?Q, OF _ assms])
    fix f P test best N K calls y
    assume ih: "\<And>P' t' b' N' K' c' y'.
        f P' t' b' N' K' c' = Some y' \<Longrightarrow> ?Q (((((P', t'), b'), N'), K'), c') y'"
      and body: "(if K \<le> N
          then case trySweep P test best [] (computeChunks N K) calls of
                 (None, calls') \<Rightarrow> f P test best N (2 * K) calls'
               | (Some candidate, calls') \<Rightarrow>
                   f P test candidate (countTargets P candidate) 2 calls'
          else Some (best, calls)) = Some y"
    have "\<not> (P = idPass \<and> test = (\<lambda>a. True) \<and> N = length best \<and> 2 \<le> N \<and> 1 \<le> K \<and> K \<le> N)"
    proof
      assume a: "P = idPass \<and> test = (\<lambda>a. True) \<and> N = length best \<and> 2 \<le> N \<and> 1 \<le> K \<and> K \<le> N"
      then have sw: "trySweep P test best [] (computeChunks N K) calls = (Some best, calls + 1)"
        using idPass_sweep [of K best N calls] by simp
      from a have ct: "countTargets P best = N" by (simp add: idPass_def)
      from body a sw ct have "f P test best N 2 (calls + 1) = Some y" by simp
      from ih [OF this] a show False by simp
    qed
    then show "?Q (((((P, test), best), N), K), calls) y" by simp
  qed
  then show ?thesis by simp
qed

section \<open>Lemmas about the driver\<close>

lemma main_runs_passes:
  assumes "current_path env = Inr CWD"
  shows "\<exists>T. RunDeltaPasses T \<in> set (snd (main env opts)) \<and>
             TesterProgram T = fst (parseInputFile env (InputFilename opts))"
  using assms
  by (auto simp: main_def initializeTmpDirectory_def Let_def split_beta split: option.splits)

lemma main_reports:
  assumes "current_path env = Inr CWD"
  shows "\<exists>pre T T'. T' = runDeltaPasses env T \<and>
     (if path_filename env (ReducedFilepath T') = InputFilename opts
      then main env opts = (0, pre @ [RunDeltaPasses T,
                                      PrintOuts ''\<newline>Couldnt reduce input :/\<newline>''])
      else \<exists>Output. main env opts = (0, pre @ [RunDeltaPasses T,
              CopyFile (ReducedFilepath T') Output,
              PrintOuts (''\<newline>Done reducing! Reduced IR to file: '' @ Output @ ''\<newline>'')]))"
  using assms
  by (auto simp: main_def initializeTmpDirectory_def Let_def split_beta split: option.splits)

section \<open>The claims\<close>

text \<open>
  C1. The claim: for every module and every kept chunk set that is an ascending,
  non-overlapping sequence of ranges over \<open>1..N\<close>, the candidate returned by
  \<^verbatim>\<open>extractChunksFromModule\<close> contains exactly the definitions whose index lies inside a
  kept chunk, and every declaration.

  The code does not do that for every such chunk set. On the module \<open>exampleModule\<close>, with
  three definitions, the kept set \<open>[{1, 1}]\<close> is a chunk set over \<open>1..3\<close>. The first loop
  keeps definition 1 and, its index having reached the end of the chunk, increments \<open>I\<close>
  to 1; at definition 2 it reads \<^verbatim>\<open>ChunksToKeep[1]\<close> of a vector of size 1. The lemma
  \<open>keepLoop_valid\<close> says when this happens: whenever a definition has an index beyond the
  end of the last kept chunk. Where it does not happen, the candidate is as the claim
  says (\<open>extract_keeps_chunks\<close>).
\<close>

theorem extractChunksFromModule_reads_past_last_chunk:
  "validChunks 3 [\<lparr>chunk_begin = 1, chunk_end = 1\<rparr>] \<and>
   length (definedFunctions exampleModule) = 3 \<and>
   extractChunksFromModule [\<lparr>chunk_begin = 1, chunk_end = 1\<rparr>] 0 exampleState =
     Inl ChunkIndexOutOfBounds"
  by (simp add: validChunks_def definedFunctions_def isDeclaration_def exampleModule_def
      exampleState_def extractChunksFromModule_def CloneModule_def)

text \<open>
  C2. The claim: with an empty kept chunk set, \<^verbatim>\<open>extractChunksFromModule\<close> returns a module
  with no definition and reads no chunk out of bounds.

  The code reads \<^verbatim>\<open>ChunksToKeep[0]\<close> of the empty vector at the first definition of the
  module.
\<close>

theorem extractChunksFromModule_empty_reads_out_of_bounds:
  "extractChunksFromModule [] 0 exampleState = Inl ChunkIndexOutOfBounds"
  by (simp add: isDeclaration_def exampleModule_def exampleState_def
      extractChunksFromModule_def CloneModule_def)

text \<open>
  C3. Whenever \<^verbatim>\<open>extractChunksFromModule\<close> returns, the mutations it has performed on the
  clone are, in this order: the replacement by \<^verbatim>\<open>undef\<close> of the uses of every out-of-chunk
  definition; the erasure of these definitions; the replacement by \<^verbatim>\<open>undef\<close> of the uses
  of every call with no called function that the module has after these erasures; the
  erasure of these calls. When the first erasure starts, no instruction of the clone has
  an out-of-chunk definition as an operand.
\<close>

theorem extractChunksFromModule_two_phase_order:
  assumes "extractChunksFromModule cs Program st = Inr (Clone, st')"
  shows "\<exists>FuncsToKeep.
           keepLoop cs (functionList (heap st ! Program)) 0 1 {} = Inr FuncsToKeep \<and>
           trace st' = trace st
             @ map (\<lambda>f. ReplaceAllUsesWithUndef (FuncVal f))
                 (funcsToRemove FuncsToKeep (heap st ! Program))
             @ map EraseFunction (funcsToRemove FuncsToKeep (heap st ! Program))
             @ map (\<lambda>i. ReplaceAllUsesWithUndef (InstVal i))
                 (instToRemove (prunedModule FuncsToKeep (heap st ! Program)))
             @ map EraseInstruction
                 (instToRemove (prunedModule FuncsToKeep (heap st ! Program))) \<and>
           (\<forall>J\<in>set (allInsts (patchedModule FuncsToKeep (heap st ! Program))).
              \<forall>f\<in>set (funcsToRemove FuncsToKeep (heap st ! Program)).
                FuncVal f \<notin> set (operands J))"
  using assms
proof (rule extract_InrE)
  fix keep
  assume k: "keepLoop cs (functionList (heap st ! Program)) 0 1 {} = Inr keep"
    and s: "st' = st\<lparr>heap := heap st @ [sweptModule (prunedModule keep (heap st ! Program))],
                     trace := trace st @ stripTrace keep (heap st ! Program)\<rparr>"
  from s have "trace st' = trace st @ stripTrace keep (heap st ! Program)" by simp
  with k patched_no_use [of _ keep "heap st ! Program"] show ?thesis
    unfolding stripTrace_def by blast
qed

theorem extractChunksFromModule_two_phase_order_witness:
  "\<exists>st'. extractChunksFromModule
            [\<lparr>chunk_begin = 1, chunk_end = 1\<rparr>, \<lparr>chunk_begin = 3, chunk_end = 3\<rparr>] 0
            exampleState = Inr (1, st') \<and>
         trace st' =
           [ReplaceAllUsesWithUndef (FuncVal 7), EraseFunction 7,
            ReplaceAllUsesWithUndef (InstVal 10), ReplaceAllUsesWithUndef (InstVal 11),
            EraseInstruction 10, EraseInstruction 11]"
proof -
  let ?cs = "[\<lparr>chunk_begin = 1, chunk_end = 1\<rparr>, \<lparr>chunk_begin = 3, chunk_end = 3\<rparr>]"
  have k: "keepLoop ?cs (functionList exampleModule) 0 1 {} = Inr {8, 6}"
    by (simp add: exampleModule_def isDeclaration_def)
  have "extractChunksFromModule ?cs 0 exampleState =
          Inr (1, exampleState\<lparr>heap := heap exampleState @
                 [sweptModule (prunedModule {8, 6} (heap exampleState ! 0))],
               trace := trace exampleState @ stripTrace {8, 6} (heap exampleState ! 0)\<rparr>)"
    using extract_Inr [of 0 exampleState ?cs "{8, 6}"] k
    by (simp add: exampleState_def)
  then obtain st' where e: "extractChunksFromModule ?cs 0 exampleState = Inr (1, st')"
    by blast
  from extractChunksFromModule_two_phase_order [OF e] k
  have t: "trace st' = trace exampleState
             @ map (\<lambda>f. ReplaceAllUsesWithUndef (FuncVal f))
                 (funcsToRemove {8, 6} (heap exampleState ! 0))
             @ map EraseFunction (funcsToRemove {8, 6} (heap exampleState ! 0))
             @ map (\<lambda>i. ReplaceAllUsesWithUndef (InstVal i))
                 (instToRemove (prunedModule {8, 6} (heap exampleState ! 0)))
             @ map EraseInstruction
                 (instToRemove (prunedModule {8, 6} (heap exampleState ! 0)))"
    by (simp add: exampleState_def)
  have r: "funcsToRemove {8, 6} exampleModule = [7]"
    by (simp add: funcsToRemove_def outOfChunk_def isDeclaration_def exampleModule_def)
  have "prunedModule {8, 6} exampleModule =
          eraseFunction 7 (replaceAllUsesWith (FuncVal 7) Undef exampleModule)"
    unfolding prunedModule_def patchedModule_def r by simp
  then have d: "instToRemove (prunedModule {8, 6} exampleModule) = [10, 11]"
    by (simp add: instToRemove_def allInsts_def replaceAllUsesWith_def eraseFunction_def
        substFunc_def substVal_def exampleModule_def)
  from t have "trace st' =
           [ReplaceAllUsesWithUndef (FuncVal 7), EraseFunction 7,
            ReplaceAllUsesWithUndef (InstVal 10), ReplaceAllUsesWithUndef (InstVal 11),
            EraseInstruction 10, EraseInstruction 11]"
    by (simp add: exampleState_def r d)
  with e show ?thesis by blast
qed

text \<open>
  C4. The claim: for every kept chunk set that omits a chunk holding a definition, the
  candidate has strictly fewer definitions than the input.

  The code does not produce a candidate for every such chunk set. On \<open>exampleModule\<close>, with
  three definitions, the kept set \<open>[{1, 2}]\<close> omits the chunk \<open>{3, 3}\<close>. The first loop
  increments \<open>I\<close> to 1 at definition 2 and reads \<^verbatim>\<open>ChunksToKeep[1]\<close> of a vector of size 1
  at definition 3. This is the defect of C1 and C2. Where no chunk is read
  out of bounds, the candidate has fewer definitions, as the claim says
  (\<open>extract_fewer_targets\<close>).
\<close>

theorem extractChunksFromModule_omitted_tail_out_of_bounds:
  "(\<exists>st'. getTargetCount 0 exampleState = Inr (3, st')) \<and>
   validChunks 3 [\<lparr>chunk_begin = 1, chunk_end = 2\<rparr>] \<and>
   \<not> covered [\<lparr>chunk_begin = 1, chunk_end = 2\<rparr>] 3 \<and>
   extractChunksFromModule [\<lparr>chunk_begin = 1, chunk_end = 2\<rparr>] 0 exampleState =
     Inl ChunkIndexOutOfBounds"
proof -
  have "0 < length (heap exampleState)" by (simp add: exampleState_def)
  from getTargetCount_result [OF this] obtain st' where
    "getTargetCount 0 exampleState =
       Inr (int (length (definedFunctions (heap exampleState ! 0))), st')" by blast
  moreover have "int (length (definedFunctions (heap exampleState ! 0))) = 3"
    by (simp add: exampleState_def exampleModule_def definedFunctions_def isDeclaration_def)
  ultimately have "\<exists>st'. getTargetCount 0 exampleState = Inr (3, st')" by auto
  moreover have "extractChunksFromModule [\<lparr>chunk_begin = 1, chunk_end = 2\<rparr>] 0 exampleState =
     Inl ChunkIndexOutOfBounds"
    by (simp add: isDeclaration_def exampleModule_def exampleState_def
        extractChunksFromModule_def CloneModule_def)
  ultimately show ?thesis by (simp add: validChunks_def)
qed

text \<open>
  C5. The claim: the search of section 4.4 halts for every pass and every oracle.

  It does not halt for every pass. With the pass \<open>idPass\<close>, whose \<open>reduce\<close> returns the
  artifact as it is, and the oracle that accepts every candidate, the first candidate of
  every sweep is accepted, the target count stays 2, and the search restarts at
  granularity 2 for ever: it has no result.
\<close>

theorem bisection_does_not_halt_for_identity_pass:
  "runPass idPass (\<lambda>a. True) [1, 2] = None"
proof (cases "runPass idPass (\<lambda>a. True) [1, 2]")
  case None
  then show ?thesis .
next
  case (Some y)
  then have "bisect idPass (\<lambda>a. True) [1, 2] (length [1, 2 :: nat]) 2 0 = Some y"
    by (simp add: runPass_def idPass_def)
  from idPass_never_returns [OF this] show ?thesis by simp
qed

text \<open>
  C5, amended. The search of section 4.4 halts, for every oracle and every pass that keeps
  the contract of section 4.2 in this form: a candidate built from a kept chunk set that
  leaves some target index of the artifact uncovered has fewer target units than the
  artifact. It halts with some best artifact after some number of oracle calls, and the
  best artifact has no more target units than the input. In the proof, a successful
  removal at a granularity \<open>K \<le> N\<close> leaves fewer than \<open>N\<close> target units
  (\<open>success_decreases\<close>), and a sweep with no success doubles \<open>K \<ge> 1\<close>, which brings \<open>K\<close>
  closer to exceeding \<open>N\<close>. The engine and the chunk computation are modelled from the
  spec.
\<close>

theorem bisection_halts:
  assumes "\<forall>a kept. (\<exists>j\<in>{1..int (countTargets P a)}. \<not> covered kept j) \<longrightarrow>
             countTargets P (reduce P a kept) < countTargets P a"
  shows "\<exists>best' calls. runPass P test best = Some (best', calls) \<and>
           countTargets P best' \<le> countTargets P best"
proof (cases "countTargets P best = 0")
  case True
  then show ?thesis by (simp add: runPass_def)
next
  case False
  from bisect_halts_from [OF assms refl, of 2 test best 0] False show ?thesis
    by (simp add: runPass_def)
qed

theorem bisection_halts_witness:
  "\<exists>calls. runPass listPass (\<lambda>xs. 3 \<in> set xs) [1, 2, 3, 4, 5] = Some ([3], calls)"
proof -
  from bisection_halts [OF listPass_contract, of "\<lambda>xs. 3 \<in> set xs" "[1, 2, 3, 4, 5]"]
  obtain best' calls where
    r: "runPass listPass (\<lambda>xs. 3 \<in> set xs) [1, 2, 3, 4, 5] = Some (best', calls)" by blast
  have "runPass listPass (\<lambda>xs. 3 \<in> set xs) [1, 2, 3, 4, 5] = Some ([3], 3)"
    by code_simp
  with r show ?thesis by simp
qed

text \<open>
  C6. \<^verbatim>\<open>getTargetCount\<close> on a module that exists returns the number of functions of the
  module that are not declarations; it writes to \<^verbatim>\<open>outs()\<close> and leaves every module as it
  was; called again at once, it returns the same number.
\<close>

theorem getTargetCount_pure:
  assumes "Program < length (heap st)"
  shows "\<exists>st1 st2.
           getTargetCount Program st =
             Inr (int (length (definedFunctions (heap st ! Program))), st1) \<and>
           getTargetCount Program st1 =
             Inr (int (length (definedFunctions (heap st ! Program))), st2) \<and>
           heap st1 = heap st \<and> heap st2 = heap st"
proof -
  from getTargetCount_result [OF assms] obtain st1 where
    1: "getTargetCount Program st =
          Inr (int (length (definedFunctions (heap st ! Program))), st1)"
    and h1: "heap st1 = heap st" by blast
  from assms h1 have "Program < length (heap st1)" by simp
  from getTargetCount_result [OF this] h1 obtain st2 where
    2: "getTargetCount Program st1 =
          Inr (int (length (definedFunctions (heap st ! Program))), st2)"
    and h2: "heap st2 = heap st" by auto
  from 1 2 h1 h2 show ?thesis by blast
qed

theorem getTargetCount_pure_witness:
  "\<exists>st1 st2. getTargetCount 0 exampleState = Inr (3, st1) \<and>
             getTargetCount 0 st1 = Inr (3, st2) \<and>
             outs st1 \<noteq> outs exampleState \<and>
             heap st1 = [exampleModule] \<and> heap st2 = [exampleModule]"
proof -
  have p: "0 < length (heap exampleState)" by (simp add: exampleState_def)
  have n: "int (length (definedFunctions (heap exampleState ! 0))) = 3"
    by (simp add: exampleState_def exampleModule_def definedFunctions_def isDeclaration_def)
  from getTargetCount_pure [OF p] obtain st1 st2 where
    1: "getTargetCount 0 exampleState = Inr (3, st1)"
    and 2: "getTargetCount 0 st1 = Inr (3, st2)"
    and h: "heap st1 = heap exampleState" "heap st2 = heap exampleState"
    unfolding n by blast
  have "outs st1 \<noteq> outs exampleState"
    using 1 by (auto simp: getTargetCount_def Let_def split_beta print_def exampleState_def)
  with 1 2 h show ?thesis by (auto simp: exampleState_def)
qed

text \<open>
  C7. Whenever \<^verbatim>\<open>extractChunksFromModule\<close> returns, the module it returns is a new one, and
  every module that existed before the call, the input \<^verbatim>\<open>Program\<close> among them, is as it
  was before the call.
\<close>

theorem extractChunksFromModule_frame:
  assumes "extractChunksFromModule cs Program st = Inr (Clone, st')"
  shows "Clone \<noteq> Program \<and> heap st' ! Program = heap st ! Program \<and>
         take (length (heap st)) (heap st') = heap st"
  using assms by (rule extract_InrE) (simp add: nth_append)

theorem extractChunksFromModule_frame_witness:
  "\<exists>st'. extractChunksFromModule
            [\<lparr>chunk_begin = 1, chunk_end = 1\<rparr>, \<lparr>chunk_begin = 3, chunk_end = 3\<rparr>] 0
            exampleState = Inr (1, st') \<and>
         heap st' ! 0 = exampleModule \<and> heap st' ! 1 \<noteq> exampleModule"
proof -
  let ?cs = "[\<lparr>chunk_begin = 1, chunk_end = 1\<rparr>, \<lparr>chunk_begin = 3, chunk_end = 3\<rparr>]"
  have k: "keepLoop ?cs (functionList exampleModule) 0 1 {} = Inr {8, 6}"
    by (simp add: exampleModule_def isDeclaration_def)
  let ?st' = "exampleState\<lparr>heap := heap exampleState @
                 [sweptModule (prunedModule {8, 6} (heap exampleState ! 0))],
               trace := trace exampleState @ stripTrace {8, 6} (heap exampleState ! 0)\<rparr>"
  have e: "extractChunksFromModule ?cs 0 exampleState = Inr (1, ?st')"
    using extract_Inr [of 0 exampleState ?cs "{8, 6}"] k
    by (simp add: exampleState_def)
  have r: "funcsToRemove {8, 6} exampleModule = [7]"
    by (simp add: funcsToRemove_def outOfChunk_def isDeclaration_def exampleModule_def)
  have "map fid (functionList (heap ?st' ! 1)) = [5, 6, 8]"
    by (simp add: exampleState_def fids_sweptModule fids_prunedModule r)
      (simp add: exampleModule_def)
  moreover have "map fid (functionList exampleModule) = [5, 6, 7, 8]"
    by (simp add: exampleModule_def)
  ultimately have "map fid (functionList (heap ?st' ! 1)) \<noteq> map fid (functionList exampleModule)"
    by simp
  then have ne: "heap ?st' ! 1 \<noteq> exampleModule" by auto
  from extractChunksFromModule_frame [OF e] have "heap ?st' ! 0 = exampleModule"
    by (simp add: exampleState_def)
  with e ne show ?thesis by blast
qed

text \<open>
  C8. The claim: when the input fails to parse or to verify, the run aborts before any
  reduction attempt and no delta pass is executed.

  \<^verbatim>\<open>parseInputFile\<close> prints the error and returns a null pointer, and \<^verbatim>\<open>main\<close> does not look
  at what it returned: it creates the temporary directory, hands the null program to the
  test runner and calls \<^verbatim>\<open>runDeltaPasses\<close>. Here the parser rejects \<open>broken.ll\<close>.
\<close>

theorem main_runs_delta_passes_on_unparsed_input:
  "parseInputFile (exampleEnvironment (\<lambda>f. None)) ''broken.ll'' =
     (None, [PrintErrs ''llvm-reduce'']) \<and>
   main (exampleEnvironment (\<lambda>f. None)) (exampleOptions ''broken.ll'') =
     (0, [PrintErrs ''llvm-reduce'', CreateDirectory ''/work/tmp'',
          RunDeltaPasses \<lparr>TestName = ''test.sh'', TestArgs = [],
             ReducedFilepath = ''broken.ll'', TmpDirectory = ''/work/tmp'',
             TesterProgram = None\<rparr>,
          PrintOuts ''\<newline>Couldnt reduce input :/\<newline>''])"
  by (simp add: main_def parseInputFile_def initializeTmpDirectory_def exampleEnvironment_def
      exampleOptions_def filename_component_def Let_def)

text \<open>
  C9. The claim: when the reduced file path still names the input at the end, the driver
  reports that it could not reduce and writes no output file.

  The driver compares the file name component of the reduced file path with the input
  file name as it was given. When the input is given with a directory, as \<open>dir/a.ll\<close>,
  and the passes leave the reduced file path at the input (\<open>dir/a.ll\<close>), the driver
  compares \<open>a.ll\<close> with \<open>dir/a.ll\<close>, copies the input to \<open>reduced.ll\<close> and reports a reduction.
  For every input the driver takes one of the two branches of the claim, chosen by that
  comparison (\<open>main_reports\<close>).
\<close>

theorem main_copies_unreduced_input_given_with_directory:
  "filename_component ''dir/a.ll'' = ''a.ll'' \<and>
   main (exampleEnvironment (\<lambda>f. Some exampleModule)) (exampleOptions ''dir/a.ll'') =
     (0, [CreateDirectory ''/work/tmp'',
          RunDeltaPasses \<lparr>TestName = ''test.sh'', TestArgs = [],
             ReducedFilepath = ''dir/a.ll'', TmpDirectory = ''/work/tmp'',
             TesterProgram = Some exampleModule\<rparr>,
          CopyFile ''dir/a.ll'' ''reduced.ll'',
          PrintOuts ''\<newline>Done reducing! Reduced IR to file: reduced.ll\<newline>''])"
  by (simp add: main_def parseInputFile_def initializeTmpDirectory_def exampleEnvironment_def
      exampleOptions_def filename_component_def Let_def)

text \<open>
  C10. In every run of \<^verbatim>\<open>extractChunksFromModule\<close> that returns, the sweep comes after the
  replacements and erasures of the out-of-chunk definitions and has two parts: first the
  uses of the result of every call that has no called function at that moment are
  replaced by \<^verbatim>\<open>undef\<close>, then these calls are erased. The returned module has no call
  without a called function, no instruction with the address of a call so removed and no
  operand that is the result of one. The calls removed include every call without a called
  function that the input has in a function that stays, an indirect call among them.

  With a kept chunk set that covers every target unit, the call returns a module with
  the functions of the input, the mutations are those of the sweep alone, and when the
  input has a call without a called function, the returned module is not the input.
\<close>

theorem sweep_deletes_unresolved_calls:
  "(\<forall>Clone st'.
      extractChunksFromModule cs Program st = Inr (Clone, st') \<longrightarrow>
      (\<exists>FuncsToKeep.
         keepLoop cs (functionList (heap st ! Program)) 0 1 {} = Inr FuncsToKeep \<and>
         trace st' = trace st
           @ map (\<lambda>f. ReplaceAllUsesWithUndef (FuncVal f))
               (funcsToRemove FuncsToKeep (heap st ! Program))
           @ map EraseFunction (funcsToRemove FuncsToKeep (heap st ! Program))
           @ map (\<lambda>i. ReplaceAllUsesWithUndef (InstVal i))
               (instToRemove (prunedModule FuncsToKeep (heap st ! Program)))
           @ map EraseInstruction
               (instToRemove (prunedModule FuncsToKeep (heap st ! Program))) \<and>
         (\<forall>J\<in>set (allInsts (heap st' ! Clone)).
            \<not> isUndefCall J \<and>
            (\<forall>I\<in>set (allInsts (prunedModule FuncsToKeep (heap st ! Program))).
               isUndefCall I \<longrightarrow>
                 instId J \<noteq> instId I \<and> InstVal (instId I) \<notin> set (operands J)) \<and>
            (\<forall>F\<in>set (functionList (heap st ! Program)).
               fid F \<notin> set (funcsToRemove FuncsToKeep (heap st ! Program)) \<longrightarrow>
               (\<forall>I\<in>set (concat (blocks F)).
                  isUndefCall I \<longrightarrow>
                    instId J \<noteq> instId I \<and> InstVal (instId I) \<notin> set (operands J)))))) \<and>
   (Program < length (heap st) \<and>
    validChunks (int (length (definedFunctions (heap st ! Program)))) cs \<and>
    (\<forall>j\<in>{1..int (length (definedFunctions (heap st ! Program)))}. covered cs j) \<longrightarrow>
    (\<exists>st'. extractChunksFromModule cs Program st = Inr (length (heap st), st') \<and>
           map fid (functionList (heap st' ! length (heap st))) =
             map fid (functionList (heap st ! Program)) \<and>
           trace st' = trace st
             @ map (\<lambda>i. ReplaceAllUsesWithUndef (InstVal i)) (instToRemove (heap st ! Program))
             @ map EraseInstruction (instToRemove (heap st ! Program)) \<and>
           (\<forall>J\<in>set (allInsts (heap st' ! length (heap st))).
               \<not> isUndefCall J \<and>
               (\<forall>I\<in>set (allInsts (heap st ! Program)).
                   isUndefCall I \<longrightarrow>
                     instId J \<noteq> instId I \<and> InstVal (instId I) \<notin> set (operands J))) \<and>
           ((\<exists>I\<in>set (allInsts (heap st ! Program)). isUndefCall I) \<longrightarrow>
               heap st' ! length (heap st) \<noteq> heap st ! Program)))"
proof (intro conjI allI impI)
  let ?M = "heap st ! Program"
  fix Clone st'
  assume "extractChunksFromModule cs Program st = Inr (Clone, st')"
  then show "\<exists>FuncsToKeep.
         keepLoop cs (functionList ?M) 0 1 {} = Inr FuncsToKeep \<and>
         trace st' = trace st
           @ map (\<lambda>f. ReplaceAllUsesWithUndef (FuncVal f)) (funcsToRemove FuncsToKeep ?M)
           @ map EraseFunction (funcsToRemove FuncsToKeep ?M)
           @ map (\<lambda>i. ReplaceAllUsesWithUndef (InstVal i))
               (instToRemove (prunedModule FuncsToKeep ?M))
           @ map EraseInstruction (instToRemove (prunedModule FuncsToKeep ?M)) \<and>
         (\<forall>J\<in>set (allInsts (heap st' ! Clone)).
            \<not> isUndefCall J \<and>
            (\<forall>I\<in>set (allInsts (prunedModule FuncsToKeep ?M)).
               isUndefCall I \<longrightarrow>
                 instId J \<noteq> instId I \<and> InstVal (instId I) \<notin> set (operands J)) \<and>
            (\<forall>F\<in>set (functionList ?M).
               fid F \<notin> set (funcsToRemove FuncsToKeep ?M) \<longrightarrow>
               (\<forall>I\<in>set (concat (blocks F)).
                  isUndefCall I \<longrightarrow>
                    instId J \<noteq> instId I \<and> InstVal (instId I) \<notin> set (operands J))))"
  proof (rule extract_InrE)
    fix keep
    assume k: "keepLoop cs (functionList ?M) 0 1 {} = Inr keep"
      and c: "Clone = length (heap st)"
      and s: "st' = st\<lparr>heap := heap st @ [sweptModule (prunedModule keep ?M)],
                       trace := trace st @ stripTrace keep ?M\<rparr>"
    from s c have h: "heap st' ! Clone = sweptModule (prunedModule keep ?M)" by simp
    from s have t: "trace st' = trace st @ stripTrace keep ?M" by simp
    have gone: "\<forall>J\<in>set (allInsts (sweptModule (prunedModule keep ?M))).
            \<not> isUndefCall J \<and>
            (\<forall>I\<in>set (allInsts (prunedModule keep ?M)).
               isUndefCall I \<longrightarrow>
                 instId J \<noteq> instId I \<and> InstVal (instId I) \<notin> set (operands J)) \<and>
            (\<forall>F\<in>set (functionList ?M).
               fid F \<notin> set (funcsToRemove keep ?M) \<longrightarrow>
               (\<forall>I\<in>set (concat (blocks F)).
                  isUndefCall I \<longrightarrow>
                    instId J \<noteq> instId I \<and> InstVal (instId I) \<notin> set (operands J)))"
    proof (intro ballI conjI impI)
      fix J assume J: "J \<in> set (allInsts (sweptModule (prunedModule keep ?M)))"
      note r = swept_result [OF J]
      from r show "\<not> isUndefCall J" by simp
      {
        fix I assume "I \<in> set (allInsts (prunedModule keep ?M))" "isUndefCall I"
        with r show "instId J \<noteq> instId I" "InstVal (instId I) \<notin> set (operands J)" by blast+
      }
      fix F I
      assume "F \<in> set (functionList ?M)" "fid F \<notin> set (funcsToRemove keep ?M)"
        "I \<in> set (concat (blocks F))" "isUndefCall I"
      from kept_undef_call_pruned [OF this] obtain I' where
        "I' \<in> set (allInsts (prunedModule keep ?M))" "isUndefCall I'" "instId I' = instId I"
        by blast
      with r show "instId J \<noteq> instId I" "InstVal (instId I) \<notin> set (operands J)"
        by metis+
    qed
    from k t gone show ?thesis unfolding h stripTrace_def by blast
  qed
next
  let ?M = "heap st ! Program"
  assume a: "Program < length (heap st) \<and>
    validChunks (int (length (definedFunctions ?M))) cs \<and>
    (\<forall>j\<in>{1..int (length (definedFunctions ?M))}. covered cs j)"
  from keepLoop_covering [of ?M cs] a obtain keep where
    k: "keepLoop cs (functionList ?M) 0 1 {} = Inr keep" and r: "funcsToRemove keep ?M = []"
    by blast
  from r have pr: "prunedModule keep ?M = ?M"
    by (simp add: prunedModule_def patchedModule_def)
  let ?st' = "st\<lparr>heap := heap st @ [sweptModule ?M],
                 trace := trace st @ stripTrace keep ?M\<rparr>"
  have e: "extractChunksFromModule cs Program st = Inr (length (heap st), ?st')"
    using extract_Inr [OF _ k] a pr by simp
  have h: "heap ?st' ! length (heap st) = sweptModule ?M" by simp
  have fids: "map fid (functionList (sweptModule ?M)) = map fid (functionList ?M)"
    by (rule fids_sweptModule)
  have t: "trace ?st' = trace st
             @ map (\<lambda>i. ReplaceAllUsesWithUndef (InstVal i)) (instToRemove ?M)
             @ map EraseInstruction (instToRemove ?M)"
    by (simp add: stripTrace_def r pr)
  have gone: "\<forall>J\<in>set (allInsts (sweptModule ?M)).
               \<not> isUndefCall J \<and>
               (\<forall>I\<in>set (allInsts ?M).
                   isUndefCall I \<longrightarrow>
                     instId J \<noteq> instId I \<and> InstVal (instId I) \<notin> set (operands J))"
    using swept_result by blast
  have ne: "(\<exists>I\<in>set (allInsts ?M). isUndefCall I) \<longrightarrow> sweptModule ?M \<noteq> ?M"
    using swept_changes by blast
  show "\<exists>st'. extractChunksFromModule cs Program st = Inr (length (heap st), st') \<and>
           map fid (functionList (heap st' ! length (heap st))) = map fid (functionList ?M) \<and>
           trace st' = trace st
             @ map (\<lambda>i. ReplaceAllUsesWithUndef (InstVal i)) (instToRemove ?M)
             @ map EraseInstruction (instToRemove ?M) \<and>
           (\<forall>J\<in>set (allInsts (heap st' ! length (heap st))).
               \<not> isUndefCall J \<and>
               (\<forall>I\<in>set (allInsts ?M).
                   isUndefCall I \<longrightarrow>
                     instId J \<noteq> instId I \<and> InstVal (instId I) \<notin> set (operands J))) \<and>
           ((\<exists>I\<in>set (allInsts ?M). isUndefCall I) \<longrightarrow>
               heap st' ! length (heap st) \<noteq> ?M)"
    apply (rule exI [of _ ?st'])
    unfolding h
    using e fids t gone ne by blast
qed

theorem sweep_deletes_unresolved_calls_witness:
  "(\<exists>st'. extractChunksFromModule
            [\<lparr>chunk_begin = 1, chunk_end = 1\<rparr>, \<lparr>chunk_begin = 3, chunk_end = 3\<rparr>] 0
            exampleState = Inr (1, st') \<and>
          trace st' =
            [ReplaceAllUsesWithUndef (FuncVal 7), EraseFunction 7,
             ReplaceAllUsesWithUndef (InstVal 10), ReplaceAllUsesWithUndef (InstVal 11),
             EraseInstruction 10, EraseInstruction 11] \<and>
          (\<forall>J\<in>set (allInsts (heap st' ! 1)).
             \<not> isUndefCall J \<and> instId J \<noteq> 10 \<and> instId J \<noteq> 11 \<and>
             InstVal 10 \<notin> set (operands J) \<and> InstVal 11 \<notin> set (operands J))) \<and>
   (\<exists>st'. extractChunksFromModule [\<lparr>chunk_begin = 1, chunk_end = 3\<rparr>] 0 exampleState =
           Inr (1, st') \<and>
         map fid (functionList (heap st' ! 1)) = [5, 6, 7, 8] \<and>
         trace st' = [ReplaceAllUsesWithUndef (InstVal 11), EraseInstruction 11] \<and>
         CallInst 11 (OtherVal 0) [InstVal 10] \<in> set (allInsts exampleModule) \<and>
         (\<forall>J\<in>set (allInsts (heap st' ! 1)).
            \<not> isUndefCall J \<and> instId J \<noteq> 11 \<and> InstVal 11 \<notin> set (operands J)) \<and>
         heap st' ! 1 \<noteq> exampleModule)"
proof (rule conjI)
  let ?cs = "[\<lparr>chunk_begin = 1, chunk_end = 1\<rparr>, \<lparr>chunk_begin = 3, chunk_end = 3\<rparr>]"
  have h0: "heap exampleState ! 0 = exampleModule" and t0: "trace exampleState = []"
    by (simp_all add: exampleState_def)
  have k: "keepLoop ?cs (functionList exampleModule) 0 1 {} = Inr {8, 6}"
    by (simp add: exampleModule_def isDeclaration_def)
  have "extractChunksFromModule ?cs 0 exampleState =
          Inr (1, exampleState\<lparr>heap := heap exampleState @
                 [sweptModule (prunedModule {8, 6} (heap exampleState ! 0))],
               trace := trace exampleState @ stripTrace {8, 6} (heap exampleState ! 0)\<rparr>)"
    using extract_Inr [of 0 exampleState ?cs "{8, 6}"] k
    by (simp add: exampleState_def)
  then obtain st' where e: "extractChunksFromModule ?cs 0 exampleState = Inr (1, st')"
    by blast
  from sweep_deletes_unresolved_calls [of ?cs 0 exampleState, THEN conjunct1, rule_format, OF e]
  obtain keep where
    k': "keepLoop ?cs (functionList exampleModule) 0 1 {} = Inr keep"
    and t: "trace st' = trace exampleState
           @ map (\<lambda>f. ReplaceAllUsesWithUndef (FuncVal f)) (funcsToRemove keep exampleModule)
           @ map EraseFunction (funcsToRemove keep exampleModule)
           @ map (\<lambda>i. ReplaceAllUsesWithUndef (InstVal i))
               (instToRemove (prunedModule keep exampleModule))
           @ map EraseInstruction (instToRemove (prunedModule keep exampleModule))"
    and g: "\<forall>J\<in>set (allInsts (heap st' ! 1)).
            \<not> isUndefCall J \<and>
            (\<forall>I\<in>set (allInsts (prunedModule keep exampleModule)).
               isUndefCall I \<longrightarrow>
                 instId J \<noteq> instId I \<and> InstVal (instId I) \<notin> set (operands J))"
    unfolding h0 by blast
  from k k' have keep: "keep = {8, 6}" by simp
  have r: "funcsToRemove {8, 6} exampleModule = [7]"
    by (simp add: funcsToRemove_def outOfChunk_def isDeclaration_def exampleModule_def)
  have "prunedModule {8, 6} exampleModule =
          eraseFunction 7 (replaceAllUsesWith (FuncVal 7) Undef exampleModule)"
    unfolding prunedModule_def patchedModule_def r by simp
  then have a: "allInsts (prunedModule {8, 6} exampleModule) =
      [CallInst 10 Undef [], CallInst 11 (OtherVal 0) [InstVal 10], OtherInst 12 [InstVal 11],
       CallInst 30 (FuncVal 6) [Undef], OtherInst 31 [InstVal 30]]"
    by (simp add: allInsts_def replaceAllUsesWith_def eraseFunction_def
        substFunc_def substVal_def exampleModule_def)
  have d: "instToRemove (prunedModule {8, 6} exampleModule) = [10, 11]"
    by (simp add: instToRemove_def a)
  from t have t': "trace st' =
            [ReplaceAllUsesWithUndef (FuncVal 7), EraseFunction 7,
             ReplaceAllUsesWithUndef (InstVal 10), ReplaceAllUsesWithUndef (InstVal 11),
             EraseInstruction 10, EraseInstruction 11]"
    unfolding keep by (simp add: t0 r d)
  have u: "CallInst 10 Undef [] \<in> set (allInsts (prunedModule {8, 6} exampleModule)) \<and>
           isUndefCall (CallInst 10 Undef []) \<and>
           CallInst 11 (OtherVal 0) [InstVal 10] \<in>
             set (allInsts (prunedModule {8, 6} exampleModule)) \<and>
           isUndefCall (CallInst 11 (OtherVal 0) [InstVal 10])"
    by (simp add: a)
  from g u have g': "\<forall>J\<in>set (allInsts (heap st' ! 1)).
             \<not> isUndefCall J \<and> instId J \<noteq> 10 \<and> instId J \<noteq> 11 \<and>
             InstVal 10 \<notin> set (operands J) \<and> InstVal 11 \<notin> set (operands J)"
    unfolding keep by force
  show "\<exists>st'. extractChunksFromModule ?cs 0 exampleState = Inr (1, st') \<and>
          trace st' =
            [ReplaceAllUsesWithUndef (FuncVal 7), EraseFunction 7,
             ReplaceAllUsesWithUndef (InstVal 10), ReplaceAllUsesWithUndef (InstVal 11),
             EraseInstruction 10, EraseInstruction 11] \<and>
          (\<forall>J\<in>set (allInsts (heap st' ! 1)).
             \<not> isUndefCall J \<and> instId J \<noteq> 10 \<and> instId J \<noteq> 11 \<and>
             InstVal 10 \<notin> set (operands J) \<and> InstVal 11 \<notin> set (operands J))"
    by (rule exI [of _ st']) (use e t' g' in simp)
next
  let ?cs = "[\<lparr>chunk_begin = 1, chunk_end = 3\<rparr>]"
  have p: "0 < length (heap exampleState)" by (simp add: exampleState_def)
  have n: "int (length (definedFunctions (heap exampleState ! 0))) = 3"
    by (simp add: exampleState_def exampleModule_def definedFunctions_def isDeclaration_def)
  have v: "validChunks (int (length (definedFunctions (heap exampleState ! 0)))) ?cs"
    unfolding n by (simp add: validChunks_def)
  have c: "\<forall>j\<in>{1..int (length (definedFunctions (heap exampleState ! 0)))}. covered ?cs j"
    unfolding n by (simp add: covered_def)
  have a: "allInsts exampleModule =
     [CallInst 10 (FuncVal 7) [], CallInst 11 (OtherVal 0) [InstVal 10],
      OtherInst 12 [InstVal 11], OtherInst 20 [],
      CallInst 30 (FuncVal 6) [FuncVal 7], OtherInst 31 [InstVal 30]]"
    by (simp add: allInsts_def exampleModule_def)
  have d: "instToRemove exampleModule = [11]"
    by (simp add: instToRemove_def a)
  have u: "CallInst 11 (OtherVal 0) [InstVal 10] \<in> set (allInsts exampleModule) \<and>
           isUndefCall (CallInst 11 (OtherVal 0) [InstVal 10])"
    by (simp add: a)
  have l: "length (heap exampleState) = 1" and h0: "heap exampleState ! 0 = exampleModule"
    and t0: "trace exampleState = []"
    by (simp_all add: exampleState_def)
  from p v c have pre: "0 < length (heap exampleState) \<and>
      validChunks (int (length (definedFunctions (heap exampleState ! 0)))) ?cs \<and>
      (\<forall>j\<in>{1..int (length (definedFunctions (heap exampleState ! 0)))}. covered ?cs j)"
    by blast
  from sweep_deletes_unresolved_calls [of ?cs 0 exampleState, THEN conjunct2, rule_format, OF pre]
  obtain st' where
    e: "extractChunksFromModule ?cs 0 exampleState = Inr (1, st')"
    and f: "map fid (functionList (heap st' ! 1)) = map fid (functionList exampleModule)"
    and t: "trace st' = trace exampleState
             @ map (\<lambda>i. ReplaceAllUsesWithUndef (InstVal i)) (instToRemove exampleModule)
             @ map EraseInstruction (instToRemove exampleModule)"
    and g: "\<forall>J\<in>set (allInsts (heap st' ! 1)).
               \<not> isUndefCall J \<and>
               (\<forall>I\<in>set (allInsts exampleModule).
                   isUndefCall I \<longrightarrow>
                     instId J \<noteq> instId I \<and> InstVal (instId I) \<notin> set (operands J))"
    and ne: "(\<exists>I\<in>set (allInsts exampleModule). isUndefCall I) \<longrightarrow>
               heap st' ! 1 \<noteq> exampleModule"
    unfolding l h0 by blast
  from f have f': "map fid (functionList (heap st' ! 1)) = [5, 6, 7, 8]"
    by (simp add: exampleModule_def)
  from t have t': "trace st' = [ReplaceAllUsesWithUndef (InstVal 11), EraseInstruction 11]"
    by (simp add: t0 d)
  from g u have g': "\<forall>J\<in>set (allInsts (heap st' ! 1)).
            \<not> isUndefCall J \<and> instId J \<noteq> 11 \<and> InstVal 11 \<notin> set (operands J)"
    by force
  from ne u have ne': "heap st' ! 1 \<noteq> exampleModule" by blast
  show "\<exists>st'. extractChunksFromModule ?cs 0 exampleState = Inr (1, st') \<and>
         map fid (functionList (heap st' ! 1)) = [5, 6, 7, 8] \<and>
         trace st' = [ReplaceAllUsesWithUndef (InstVal 11), EraseInstruction 11] \<and>
         CallInst 11 (OtherVal 0) [InstVal 10] \<in> set (allInsts exampleModule) \<and>
         (\<forall>J\<in>set (allInsts (heap st' ! 1)).
            \<not> isUndefCall J \<and> instId J \<noteq> 11 \<and> InstVal 11 \<notin> set (operands J)) \<and>
         heap st' ! 1 \<noteq> exampleModule"
    by (rule exI [of _ st']) (use e f' t' u g' ne' in simp)
qed

end
